theory Spec2Isabelle
  imports Main "HOL-Library.Word"
begin

section \<open>Column builders (be/src/column/column_builder.h)\<close>

subsection \<open>Data model\<close>

text \<open>
  A null column holds one \<open>uint8_t\<close> per row. A builder owns a data column, a null
  column and the aggregate flag \<open>_has_null\<close>. The record is polymorphic in the data
  column: \<open>ColumnBuilder<Type>\<close> keeps a fixed-width column (its rows, a list), the
  derived \<open>NullableBinaryColumnBuilder\<close> keeps a \<open>BinaryColumn\<close>.
\<close>

type_synonym NullData = "8 word list"

text \<open>
  Modelled from the spec: the constants \<open>DATUM_NULL\<close> and \<open>DATUM_NOT_NULL\<close> are declared
  outside column_builder.h; the spec's null bitmap has "one byte per row, 1 = null".
\<close>

definition DATUM_NULL :: "8 word" where
  "DATUM_NULL = 1"

definition DATUM_NOT_NULL :: "8 word" where
  "DATUM_NOT_NULL = 0"

record 'c ColumnBuilder =
  column :: 'c
  null_column :: NullData
  has_null :: bool

text \<open>The four shapes \<open>build\<close> can return.\<close>

datatype 'a Column =
    DataColumn "'a list"
  | NullableColumn "'a list" NullData
  | ConstColumn "'a list" nat
  | ConstNullColumn nat

subsection \<open>\<open>ColumnBuilder<Type>\<close>\<close>

text \<open>
  \<open>reserve\<close> only changes capacities, which the model does not keep, so the constructor
  yields two empty columns and a cleared flag.
\<close>

definition reserve :: "nat \<Rightarrow> 'a list ColumnBuilder \<Rightarrow> 'a list ColumnBuilder" where
  "reserve n b = b"

definition ColumnBuilder_new :: "nat \<Rightarrow> 'a list ColumnBuilder" where
  "ColumnBuilder_new chunk_size =
     reserve chunk_size \<lparr>column = [], null_column = [], has_null = False\<rparr>"

text \<open>\<open>append(value)\<close>\<close>

definition append_value :: "'a \<Rightarrow> 'a list ColumnBuilder \<Rightarrow> 'a list ColumnBuilder" where
  "append_value v b =
     b\<lparr>null_column := null_column b @ [DATUM_NOT_NULL], column := column b @ [v]\<rparr>"

text \<open>\<open>append(value, is_null)\<close>: the \<open>bool\<close> is stored as a byte.\<close>

definition append_value_is_null ::
  "'a \<Rightarrow> bool \<Rightarrow> 'a list ColumnBuilder \<Rightarrow> 'a list ColumnBuilder" where
  "append_value_is_null v is_null b =
     b\<lparr>has_null := has_null b \<or> is_null,
       null_column := null_column b @ [of_bool is_null],
       column := column b @ [v]\<rparr>"

text \<open>
  \<open>append_null()\<close>: the data column gets its type's default value, passed here as
  \<open>dflt\<close>.
\<close>

definition append_null :: "'a \<Rightarrow> 'a list ColumnBuilder \<Rightarrow> 'a list ColumnBuilder" where
  "append_null dflt b =
     b\<lparr>has_null := True,
       null_column := null_column b @ [DATUM_NULL],
       column := column b @ [dflt]\<rparr>"

definition build :: "bool \<Rightarrow> 'a list ColumnBuilder \<Rightarrow> 'a Column" where
  "build is_const b =
     (if is_const \<and> has_null b then ConstNullColumn (length (column b))
      else if is_const then ConstColumn (column b) (length (column b))
      else if has_null b then NullableColumn (column b) (null_column b)
      else DataColumn (column b))"

text \<open>A call sequence on the builder, and what each call says about nullness.\<close>

datatype 'a builder_call =
    Append 'a
  | AppendIsNull 'a bool
  | AppendNull

fun apply_call :: "'a \<Rightarrow> 'a list ColumnBuilder \<Rightarrow> 'a builder_call \<Rightarrow> 'a list ColumnBuilder" where
  "apply_call dflt b (Append v) = append_value v b"
| "apply_call dflt b (AppendIsNull v is_null) = append_value_is_null v is_null b"
| "apply_call dflt b AppendNull = append_null dflt b"

definition apply_calls ::
  "'a \<Rightarrow> 'a builder_call list \<Rightarrow> 'a list ColumnBuilder \<Rightarrow> 'a list ColumnBuilder" where
  "apply_calls dflt calls b = foldl (apply_call dflt) b calls"

fun call_is_null :: "'a builder_call \<Rightarrow> bool" where
  "call_is_null (Append v) = False"
| "call_is_null (AppendIsNull v is_null) = is_null"
| "call_is_null AppendNull = True"

fun call_value :: "'a \<Rightarrow> 'a builder_call \<Rightarrow> 'a" where
  "call_value dflt (Append v) = v"
| "call_value dflt (AppendIsNull v is_null) = v"
| "call_value dflt AppendNull = dflt"

text \<open>Observers of a built column: its row count and its null bitmap.\<close>

fun column_size :: "'a Column \<Rightarrow> nat" where
  "column_size (DataColumn xs) = length xs"
| "column_size (NullableColumn xs ns) = length xs"
| "column_size (ConstColumn xs n) = n"
| "column_size (ConstNullColumn n) = n"

fun column_nulls :: "'a Column \<Rightarrow> NullData" where
  "column_nulls (DataColumn xs) = replicate (length xs) DATUM_NOT_NULL"
| "column_nulls (NullableColumn xs ns) = ns"
| "column_nulls (ConstColumn xs n) = replicate n DATUM_NOT_NULL"
| "column_nulls (ConstNullColumn n) = replicate n DATUM_NULL"

fun is_nullable :: "'a Column \<Rightarrow> bool" where
  "is_nullable (NullableColumn xs ns) = True"
| "is_nullable c = False"

subsection \<open>\<open>NullableBinaryColumnBuilder\<close>\<close>

text \<open>
  Modelled from the spec: \<open>BinaryColumn\<close> is declared outside column_builder.h. The spec
  describes a variable-width column as a bytes buffer plus an offsets array of length
  row count + 1, so a new column has no bytes and the single offset 0. The element type of
  \<open>Offsets\<close> is not visible; offsets are kept as natural numbers.
\<close>

record BinaryColumn =
  bytes :: "8 word list"
  offsets :: "nat list"

definition BinaryColumn_new :: BinaryColumn where
  "BinaryColumn_new = \<lparr>bytes = [], offsets = [0]\<rparr>"

definition NullableBinaryColumnBuilder_new :: "BinaryColumn ColumnBuilder" where
  "NullableBinaryColumnBuilder_new =
     \<lparr>column = BinaryColumn_new, null_column = [], has_null = False\<rparr>"

text \<open>
  \<open>raw::make_room\<close> resizes without initialising: rows that already exist keep their
  value, a new row holds whatever the memory held, given here by \<open>junk\<close>.
  \<open>std::vector::resize\<close> keeps the old rows and fills new ones with zero.
\<close>

definition make_room :: "(nat \<Rightarrow> 'a) \<Rightarrow> nat \<Rightarrow> 'a list \<Rightarrow> 'a list" where
  "make_room junk n xs = map (\<lambda>i. if i < length xs then xs ! i else junk i) [0..<n]"

definition vector_resize :: "nat \<Rightarrow> 'a::zero list \<Rightarrow> 'a list" where
  "vector_resize n xs = take n xs @ replicate (n - length xs) 0"

text \<open>\<open>resize(num_rows, bytes_size)\<close>; \<open>make_room\<close> yields at least one slot, so
  \<open>offsets[0] = 0\<close> is always in range.\<close>

definition resize ::
  "(nat \<Rightarrow> nat) \<Rightarrow> nat \<Rightarrow> nat \<Rightarrow> BinaryColumn ColumnBuilder \<Rightarrow> BinaryColumn ColumnBuilder" where
  "resize junk num_rows bytes_size b =
     b\<lparr>column := (column b)\<lparr>offsets := (make_room junk (num_rows + 1) (offsets (column b)))[0 := 0]\<rparr>,
       null_column := vector_resize num_rows (null_column b)\<rparr>"

text \<open>
  The row operations index \<open>offsets\<close> and the null data without a bounds check; an index
  out of range is undefined behaviour in the source and \<open>None\<close> here.
\<close>

definition set_offset :: "nat \<Rightarrow> BinaryColumn \<Rightarrow> BinaryColumn option" where
  "set_offset i c =
     (if i + 1 < length (offsets c)
      then Some (c\<lparr>offsets := (offsets c)[i + 1 := length (bytes c)]\<rparr>)
      else None)"

definition set_null :: "nat \<Rightarrow> BinaryColumn ColumnBuilder \<Rightarrow> BinaryColumn ColumnBuilder option" where
  "set_null i b =
     (case set_offset i (column b) of
        None \<Rightarrow> None
      | Some c \<Rightarrow>
          if i < length (null_column b)
          then Some (b\<lparr>has_null := True, column := c, null_column := (null_column b)[i := 1]\<rparr>)
          else None)"

definition append_empty :: "nat \<Rightarrow> BinaryColumn ColumnBuilder \<Rightarrow> BinaryColumn ColumnBuilder option" where
  "append_empty i b =
     (case set_offset i (column b) of
        None \<Rightarrow> None
      | Some c \<Rightarrow> Some (b\<lparr>column := c\<rparr>))"

text \<open>\<open>append_partial(begin, end)\<close>: the bytes of \<open>[begin, end)\<close> are \<open>bs\<close>.\<close>

definition append_partial :: "8 word list \<Rightarrow> BinaryColumn ColumnBuilder \<Rightarrow> BinaryColumn ColumnBuilder" where
  "append_partial bs b = b\<lparr>column := (column b)\<lparr>bytes := bytes (column b) @ bs\<rparr>\<rparr>"

definition append_complete :: "nat \<Rightarrow> BinaryColumn ColumnBuilder \<Rightarrow> BinaryColumn ColumnBuilder option" where
  "append_complete i b =
     (case set_offset i (column b) of
        None \<Rightarrow> None
      | Some c \<Rightarrow> Some (b\<lparr>column := c\<rparr>))"

text \<open>\<open>append(begin, end, i)\<close>\<close>

definition append_bytes ::
  "8 word list \<Rightarrow> nat \<Rightarrow> BinaryColumn ColumnBuilder \<Rightarrow> BinaryColumn ColumnBuilder option" where
  "append_bytes bs i b =
     (case set_offset i ((column b)\<lparr>bytes := bytes (column b) @ bs\<rparr>) of
        None \<Rightarrow> None
      | Some c \<Rightarrow> Some (b\<lparr>column := c\<rparr>))"

text \<open>
  \<open>rewind(n)\<close> resizes the bytes to \<open>bytes.size() - n\<close>, computed in \<open>size_t\<close>: the
  difference wraps around modulo \<open>2 ^ 64\<close> when \<open>n\<close> exceeds the size.
\<close>

definition size_t_sub :: "nat \<Rightarrow> nat \<Rightarrow> nat" where
  "size_t_sub a n = nat ((int a - int n) mod 2 ^ 64)"

definition rewind :: "nat \<Rightarrow> BinaryColumn ColumnBuilder \<Rightarrow> BinaryColumn ColumnBuilder" where
  "rewind n b =
     b\<lparr>column := (column b)\<lparr>bytes :=
         vector_resize (size_t_sub (length (bytes (column b))) n) (bytes (column b))\<rparr>\<rparr>"

definition set_has_null :: "bool \<Rightarrow> BinaryColumn ColumnBuilder \<Rightarrow> BinaryColumn ColumnBuilder" where
  "set_has_null v b = b\<lparr>has_null := v\<rparr>"

text \<open>
  Modelled from the spec: the operations the derived builder inherits act on a
  \<open>BinaryColumn\<close>, whose \<open>append\<close> and \<open>append_default\<close> are declared outside
  column_builder.h. By the column invariant (one more offset per row, the last offset the
  bytes' length) appending a value adds its bytes and one offset, and the default value is
  the empty string.
\<close>

definition BinaryColumn_append :: "8 word list \<Rightarrow> BinaryColumn \<Rightarrow> BinaryColumn" where
  "BinaryColumn_append v c =
     c\<lparr>bytes := bytes c @ v, offsets := offsets c @ [length (bytes c @ v)]\<rparr>"

definition BinaryColumn_append_default :: "BinaryColumn \<Rightarrow> BinaryColumn" where
  "BinaryColumn_append_default c = c\<lparr>offsets := offsets c @ [length (bytes c)]\<rparr>"

fun apply_inherited_call ::
  "BinaryColumn ColumnBuilder \<Rightarrow> 8 word list builder_call \<Rightarrow> BinaryColumn ColumnBuilder" where
  "apply_inherited_call b (Append v) =
     b\<lparr>null_column := null_column b @ [DATUM_NOT_NULL], column := BinaryColumn_append v (column b)\<rparr>"
| "apply_inherited_call b (AppendIsNull v is_null) =
     b\<lparr>has_null := has_null b \<or> is_null,
       null_column := null_column b @ [of_bool is_null],
       column := BinaryColumn_append v (column b)\<rparr>"
| "apply_inherited_call b AppendNull =
     b\<lparr>has_null := True,
       null_column := null_column b @ [DATUM_NULL],
       column := BinaryColumn_append_default (column b)\<rparr>"

subsection \<open>Operation sequences\<close>

text \<open>
  Every public operation of \<open>ColumnBuilder\<close>; \<open>build\<close> and \<open>data_column\<close> return a
  column and leave the builder as it is.
\<close>

datatype 'a builder_op =
    OpCall "'a builder_call"
  | OpReserve nat
  | OpBuild bool
  | OpDataColumn

fun apply_op :: "'a \<Rightarrow> 'a list ColumnBuilder \<Rightarrow> 'a builder_op \<Rightarrow> 'a list ColumnBuilder" where
  "apply_op dflt b (OpCall c) = apply_call dflt b c"
| "apply_op dflt b (OpReserve n) = reserve n b"
| "apply_op dflt b (OpBuild is_const) = b"
| "apply_op dflt b OpDataColumn = b"

definition apply_ops ::
  "'a \<Rightarrow> 'a builder_op list \<Rightarrow> 'a list ColumnBuilder \<Rightarrow> 'a list ColumnBuilder" where
  "apply_ops dflt ops b = foldl (apply_op dflt) b ops"

text \<open>
  Every public operation of \<open>NullableBinaryColumnBuilder\<close>, the inherited ones included;
  the getters and \<open>build\<close> leave the builder as it is.
\<close>

datatype binary_op =
    Inherited "8 word list builder_call"
  | Getter
  | Resize "nat \<Rightarrow> nat" nat nat
  | SetNull nat
  | AppendEmpty nat
  | AppendBytes "8 word list" nat
  | AppendPartial "8 word list"
  | AppendComplete nat
  | Rewind nat
  | SetHasNull bool

fun apply_binary_op :: "binary_op \<Rightarrow> BinaryColumn ColumnBuilder \<Rightarrow> BinaryColumn ColumnBuilder option" where
  "apply_binary_op (Inherited c) b = Some (apply_inherited_call b c)"
| "apply_binary_op Getter b = Some b"
| "apply_binary_op (Resize junk num_rows bytes_size) b = Some (resize junk num_rows bytes_size b)"
| "apply_binary_op (SetNull i) b = set_null i b"
| "apply_binary_op (AppendEmpty i) b = append_empty i b"
| "apply_binary_op (AppendBytes bs i) b = append_bytes bs i b"
| "apply_binary_op (AppendPartial bs) b = Some (append_partial bs b)"
| "apply_binary_op (AppendComplete i) b = append_complete i b"
| "apply_binary_op (Rewind n) b = Some (rewind n b)"
| "apply_binary_op (SetHasNull v) b = Some (set_has_null v b)"

fun apply_binary_ops ::
  "binary_op list \<Rightarrow> BinaryColumn ColumnBuilder \<Rightarrow> BinaryColumn ColumnBuilder option" where
  "apply_binary_ops [] b = Some b"
| "apply_binary_ops (x # xs) b =
     (case apply_binary_op x b of None \<Rightarrow> None | Some b' \<Rightarrow> apply_binary_ops xs b')"

text \<open>
  Filling the rows in order after \<open>resize\<close>: each row is finished by exactly one of
  \<open>set_null\<close>, \<open>append_empty\<close>, \<open>append\<close>, or some \<open>append_partial\<close> calls and
  then \<open>append_complete\<close>.
\<close>

datatype row_fill =
    FillNull
  | FillEmpty
  | FillValue "8 word list"
  | FillParts "8 word list list"

fun fill_row :: "row_fill \<Rightarrow> nat \<Rightarrow> BinaryColumn ColumnBuilder \<Rightarrow> BinaryColumn ColumnBuilder option" where
  "fill_row FillNull i b = set_null i b"
| "fill_row FillEmpty i b = append_empty i b"
| "fill_row (FillValue bs) i b = append_bytes bs i b"
| "fill_row (FillParts ps) i b = append_complete i (foldl (\<lambda>b p. append_partial p b) b ps)"

fun fill_rows ::
  "row_fill list \<Rightarrow> nat \<Rightarrow> BinaryColumn ColumnBuilder \<Rightarrow> BinaryColumn ColumnBuilder option" where
  "fill_rows [] i b = Some b"
| "fill_rows (f # fs) i b =
     (case fill_row f i b of None \<Rightarrow> None | Some b' \<Rightarrow> fill_rows fs (i + 1) b')"

text \<open>Memory that happens to hold zeros, for concrete runs.\<close>

definition zero_junk :: "nat \<Rightarrow> nat" where
  "zero_junk i = 0"

text \<open>The bytes a row's finalisation adds to the buffer.\<close>

fun fill_bytes :: "row_fill \<Rightarrow> 8 word list" where
  "fill_bytes FillNull = []"
| "fill_bytes FillEmpty = []"
| "fill_bytes (FillValue bs) = bs"
| "fill_bytes (FillParts ps) = concat ps"

section \<open>The ORC scanner (be/src/exec/vectorized/hdfs_scanner_orc.cpp)\<close>

subsection \<open>\<open>ORCHdfsFileStream\<close>\<close>

text \<open>
  Modelled from the spec: \<open>HdfsScanStats\<close> and \<open>RandomAccessFile\<close> are declared outside
  hdfs_scanner_orc.cpp. Of the statistics only the two counters that \<open>doRead\<close> updates are
  kept (the timer \<open>io_ns\<close> measures real time and is left out). The file is the function
  \<open>read_at_fully\<close>: the bytes at an offset, or \<open>None\<close> when the status is not OK.
\<close>

record HdfsScanStats =
  io_count :: int
  bytes_read :: int

record ORCHdfsFileStream =
  read_at_fully :: "64 word \<Rightarrow> 64 word \<Rightarrow> 8 word list option"
  file_length :: "64 word"
  stats :: HdfsScanStats
  cache_buffer :: "8 word list"
  cache_offset :: "64 word"

text \<open>
  \<open>orc::ParseError\<close> is thrown with a message. A \<open>memcpy\<close> that leaves the cache buffer or
  writes through a null pointer is undefined behaviour, kept apart as \<open>InvalidAccess\<close>.
\<close>

datatype stream_error = ParseError string | InvalidAccess

definition ORCHdfsFileStream_new ::
  "(64 word \<Rightarrow> 64 word \<Rightarrow> 8 word list option) \<Rightarrow> 64 word \<Rightarrow> HdfsScanStats \<Rightarrow> ORCHdfsFileStream" where
  "ORCHdfsFileStream_new f len st =
     \<lparr>read_at_fully = f, file_length = len, stats = st, cache_buffer = [], cache_offset = 0\<rparr>"

text \<open>All operands are \<open>uint64_t\<close>: both sums wrap around.\<close>

definition canUseCacheBuffer :: "ORCHdfsFileStream \<Rightarrow> 64 word \<Rightarrow> 64 word \<Rightarrow> bool" where
  "canUseCacheBuffer s off len =
     (length (cache_buffer s) \<noteq> 0 \<and> off \<ge> cache_offset s
      \<and> off + len \<le> cache_offset s + of_nat (length (cache_buffer s)))"

text \<open>
  \<open>doRead\<close> counts the I/O first, then may throw; the count stays when it throws. The
  result pairs the outcome with the stream, whose statistics were updated.
\<close>

definition doRead ::
  "ORCHdfsFileStream \<Rightarrow> bool \<Rightarrow> 64 word \<Rightarrow> 64 word \<Rightarrow> (stream_error + 8 word list) \<times> ORCHdfsFileStream" where
  "doRead s buf_is_null len off =
     (let s1 = s\<lparr>stats := (stats s)\<lparr>io_count := io_count (stats s) + 1\<rparr>\<rparr> in
      if buf_is_null then (Inl (ParseError ''Buffer is null''), s1)
      else case read_at_fully s off len of
          None \<Rightarrow> (Inl (ParseError ''Failed to read''), s1)
        | Some data \<Rightarrow>
            (Inr data, s1\<lparr>stats := (stats s1)\<lparr>bytes_read := bytes_read (stats s1) + uint len\<rparr>\<rparr>))"

definition read ::
  "ORCHdfsFileStream \<Rightarrow> bool \<Rightarrow> 64 word \<Rightarrow> 64 word \<Rightarrow> (stream_error + 8 word list) \<times> ORCHdfsFileStream" where
  "read s buf_is_null len off =
     (if canUseCacheBuffer s off len then
        (let idx = off - cache_offset s in
         if (buf_is_null \<and> len \<noteq> 0) \<or> unat idx + unat len > length (cache_buffer s)
         then (Inl InvalidAccess, s)
         else (Inr (take (unat len) (drop (unat idx) (cache_buffer s))), s))
      else doRead s buf_is_null len off)"

text \<open>
  \<open>prepareCache\<close>, with \<open>config::orc_file_cache_max_size\<close> as a parameter. The buffer is
  resized and the window moved before the read, so a failed read leaves the new window
  with the old or zeroed bytes. \<open>_cache_buffer.data()\<close> is taken as non-null.
\<close>

datatype PrepareCacheScope = READ_FULL_STRIPE | READ_FULL_ROW_INDEX | READ_OTHER

definition prepareCache ::
  "64 word \<Rightarrow> ORCHdfsFileStream \<Rightarrow> PrepareCacheScope \<Rightarrow> 64 word \<Rightarrow> 64 word \<Rightarrow>
   stream_error option \<times> ORCHdfsFileStream" where
  "prepareCache cache_max_size s scope off len =
     (if len > cache_max_size then (None, s)
      else if canUseCacheBuffer s off len then (None, s)
      else
        (let len' = (if scope = READ_FULL_STRIPE then min (file_length s - off) cache_max_size else len);
             s1 = s\<lparr>cache_buffer := vector_resize (unat len') (cache_buffer s), cache_offset := off\<rparr>
         in case doRead s1 False len' off of
              (Inl e, s2) \<Rightarrow> (Some e, s2)
            | (Inr data, s2) \<Rightarrow> (None, s2\<lparr>cache_buffer := data\<rparr>)))"

text \<open>A stream over a 16-byte file whose cache window holds bytes 4 to 7.\<close>

definition example_file :: "64 word \<Rightarrow> 64 word \<Rightarrow> 8 word list option" where
  "example_file off len =
     (if unat off + unat len \<le> 16
      then Some (map (\<lambda>i. of_nat i) [unat off..<unat off + unat len]) else None)"

definition example_stream :: ORCHdfsFileStream where
  "example_stream =
     \<lparr>read_at_fully = example_file, file_length = 16,
      stats = \<lparr>io_count = 1, bytes_read = 4\<rparr>,
      cache_buffer = [4, 5, 6, 7], cache_offset = 4\<rparr>"

subsection \<open>\<open>OrcRowReaderFilter\<close>: the data it reads\<close>

text \<open>
  Modelled from the spec: the descriptors, the scan range, the scanner parameters and
  context, the reader and the ORC metadata are declared outside hdfs_scanner_orc.cpp. Each
  is kept with the fields this file uses. A value of a column row is a \<open>Datum\<close>; an
  expression context is the function it computes.
\<close>

type_synonym SlotId = int

datatype PrimitiveType = TYPE_CHAR | TYPE_VARCHAR | TYPE_BIGINT

record SlotDescriptor =
  slot_id :: SlotId
  col_name :: string
  slot_type :: PrimitiveType

datatype Datum = DatumNull | DatumInt int | DatumBinary "8 word list"

record ColumnInfo =
  column_name :: string
  slot_desc :: SlotDescriptor

text \<open>A scan range is the byte range \<open>[offset, offset + length)\<close> of the file.\<close>

record THdfsScanRange =
  range_offset :: "64 word"
  range_length :: "64 word"

text \<open>
  A min/max conjunct is read through \<open>EVALUATE_NULL_IF_ERROR(...)->get(0).get_int8()\<close>:
  it is the function from the one reference row (one value per slot of the min/max tuple)
  to that byte. A conjunct of \<open>conjunct_ctxs_by_slot\<close> speaks about its slot only: it is a
  predicate on that slot's value, true when the row is kept.
\<close>

type_synonym MinMaxConjunct = "Datum list \<Rightarrow> 8 word"
type_synonym SlotConjunct = "Datum \<Rightarrow> bool"

record HdfsScannerParams =
  min_max_tuple_desc :: "SlotDescriptor list option"
  scan_ranges :: "THdfsScanRange list"

record HdfsScannerContext =
  partition_columns :: "ColumnInfo list"
  partition_values :: "Datum list"
  min_max_conjunct_ctxs :: "MinMaxConjunct list"
  materialized_columns :: "ColumnInfo list"
  can_use_dict_filter_on_slot :: "SlotDescriptor \<Rightarrow> bool"
  conjunct_ctxs_by_slot :: "(SlotId \<times> SlotConjunct list) list"

text \<open>
  What the filter asks of \<open>OrcChunkReader\<close>. \<open>decode_min_max_value\<close> appends one value to
  the min column and one to the max column and returns a status: here it returns the two
  values, or \<open>None\<close> when the status is not OK.
\<close>

record 'stats OrcChunkReader =
  get_column_id_by_name :: "string \<Rightarrow> int"
  tzoffset_in_seconds :: int
  decode_min_max_value :: "SlotDescriptor \<Rightarrow> 'stats \<Rightarrow> int \<Rightarrow> (Datum \<times> Datum) option"
  chunk_size :: nat

text \<open>
  \<open>orc::proto::RowIndex\<close>: the statistics of a column, one entry per row group.
  \<open>orc::StringDictionary\<close>: the blob of all values and the \<open>int64_t\<close> offsets into it.
  The two \<open>unordered_map\<close>s are association lists read with \<open>map_of\<close>.
\<close>

type_synonym 'stats RowIndexes = "(nat \<times> 'stats list) list"

record StringDictionary =
  dictionaryBlob :: "8 word list"
  dictionaryOffset :: "int list"

subsection \<open>\<open>std::map\<close> with \<open>insert\<close> and \<open>upper_bound\<close>\<close>

text \<open>
  A \<open>std::map\<close> is its entries in key order. \<open>insert\<close> leaves the map as it is when the
  key is there already; \<open>upper_bound k\<close> is the first entry whose key is greater than
  \<open>k\<close>, \<open>None\<close> for \<open>end()\<close>.
\<close>

fun map_insert :: "'k::linorder \<times> 'v \<Rightarrow> ('k \<times> 'v) list \<Rightarrow> ('k \<times> 'v) list" where
  "map_insert (k, v) [] = [(k, v)]"
| "map_insert (k, v) ((k', v') # m) =
     (if k < k' then (k, v) # (k', v') # m
      else if k = k' then (k', v') # m
      else (k', v') # map_insert (k, v) m)"

fun upper_bound :: "'k::linorder \<Rightarrow> ('k \<times> 'v) list \<Rightarrow> ('k \<times> 'v) option" where
  "upper_bound x [] = None"
| "upper_bound x ((k, v) # m) = (if x < k then Some (k, v) else upper_bound x m)"

subsection \<open>\<open>OrcRowReaderFilter\<close>\<close>

text \<open>
  The filter's own members. The references \<open>_scanner_params\<close>, \<open>_scanner_ctx\<close> and
  \<open>_reader\<close> are arguments of the functions below. A \<open>FilterPtr\<close> is \<open>None\<close> when null.
\<close>

type_synonym Filter = "8 word list"

record OrcRowReaderFilter =
  current_stripe_index :: nat
  init_use_dict_filter_slots :: bool
  use_dict_filter_slots :: "(SlotDescriptor \<times> nat) list"
  dict_filter_eval_cache :: "(SlotId \<times> Filter option) list"
  can_do_filter_on_orc_cvb :: bool
  filter_scan_ranges :: "(64 word \<times> 64 word) list"
  writer_tzoffset_in_seconds :: int

text \<open>The constructor: every range is inserted as end offset \<open>\<mapsto>\<close> start offset; the sum
  wraps around in \<open>uint64_t\<close>.\<close>

definition insert_scan_ranges :: "THdfsScanRange list \<Rightarrow> (64 word \<times> 64 word) list" where
  "insert_scan_ranges rs =
     foldl (\<lambda>m r. map_insert (range_offset r + range_length r, range_offset r) m) [] rs"

definition OrcRowReaderFilter_new ::
  "HdfsScannerParams \<Rightarrow> 'stats OrcChunkReader \<Rightarrow> OrcRowReaderFilter" where
  "OrcRowReaderFilter_new scanner_params reader =
     \<lparr>current_stripe_index = 0,
      init_use_dict_filter_slots = False,
      use_dict_filter_slots = [],
      dict_filter_eval_cache = [],
      can_do_filter_on_orc_cvb = True,
      filter_scan_ranges = insert_scan_ranges (scan_ranges scanner_params),
      writer_tzoffset_in_seconds = tzoffset_in_seconds reader\<rparr>"

text \<open>\<open>filterOnOpeningStripe\<close>, given the stripe's index and its byte offset: the answer
  (true = skip) and the filter, which remembers the stripe index.\<close>

definition filterOnOpeningStripe ::
  "OrcRowReaderFilter \<Rightarrow> nat \<Rightarrow> 64 word \<Rightarrow> bool \<times> OrcRowReaderFilter" where
  "filterOnOpeningStripe f stripeIndex off =
     (let f' = f\<lparr>current_stripe_index := stripeIndex\<rparr> in
      case upper_bound off (filter_scan_ranges f) of
        None \<Rightarrow> (True, f')
      | Some (range_end, range_start) \<Rightarrow>
          if off \<ge> range_start \<and> off < range_end then (False, f') else (True, f'))"

text \<open>The claim's notion of containment, on the unbounded byte positions.\<close>

definition in_scan_range :: "64 word \<Rightarrow> THdfsScanRange \<Rightarrow> bool" where
  "in_scan_range off r =
     (unat (range_offset r) \<le> unat off \<and> unat off < unat (range_offset r) + unat (range_length r))"

definition in_some_scan_range :: "64 word \<Rightarrow> THdfsScanRange list \<Rightarrow> bool" where
  "in_some_scan_range off rs = list_ex (in_scan_range off) rs"

text \<open>Two ranges overlap when they share a byte position.\<close>

definition ranges_overlap :: "THdfsScanRange \<Rightarrow> THdfsScanRange \<Rightarrow> bool" where
  "ranges_overlap r1 r2 =
     (max (unat (range_offset r1)) (unat (range_offset r2))
      < min (unat (range_offset r1) + unat (range_length r1))
            (unat (range_offset r2) + unat (range_length r2)))"

fun non_overlapping :: "THdfsScanRange list \<Rightarrow> bool" where
  "non_overlapping [] = True"
| "non_overlapping (r # rs) = (list_all (\<lambda>r'. \<not> ranges_overlap r r') rs \<and> non_overlapping rs)"

text \<open>A range is proper when it is not empty and its end does not wrap around.\<close>

definition proper_range :: "THdfsScanRange \<Rightarrow> bool" where
  "proper_range r =
     (range_length r \<noteq> 0 \<and> unat (range_offset r) + unat (range_length r) < 2 ^ 64)"

text \<open>
  Concrete data for runs: a reader over a file with the columns \<open>a\<close> (id 1), \<open>s\<close>
  (id 2) and \<open>t\<close> (id 3), whose statistics are a pair of integers; two proper ranges; and a pair of ranges
  of which the first is empty and ends where the second ends.
\<close>

definition example_reader :: "(int \<times> int) OrcChunkReader" where
  "example_reader =
     \<lparr>get_column_id_by_name = (\<lambda>name. if name = ''a'' then 1 else if name = ''s'' then 2
                                     else if name = ''t'' then 3 else - 1),
      tzoffset_in_seconds = 0,
      decode_min_max_value = (\<lambda>slot st tz. Some (DatumInt (fst st), DatumInt (snd st))),
      chunk_size = 4096\<rparr>"

definition example_ranges :: "THdfsScanRange list" where
  "example_ranges =
     [\<lparr>range_offset = 0, range_length = 5\<rparr>, \<lparr>range_offset = 10, range_length = 5\<rparr>]"

definition empty_range_first :: "THdfsScanRange list" where
  "empty_range_first =
     [\<lparr>range_offset = 5, range_length = 0\<rparr>, \<lparr>range_offset = 0, range_length = 5\<rparr>]"

subsection \<open>\<open>filterMinMax\<close> and \<open>filterOnPickRowGroup\<close>\<close>

text \<open>
  The search loop over the partition columns: the index of the first column with the
  slot's name, or the number of columns when there is none.
\<close>

fun find_partition_column :: "ColumnInfo list \<Rightarrow> string \<Rightarrow> nat \<Rightarrow> nat" where
  "find_partition_column [] name part_idx = part_idx"
| "find_partition_column (c # cs) name part_idx =
     (if column_name c = name then part_idx else find_partition_column cs name (part_idx + 1))"

text \<open>
  The first loop gives every column of \<open>min_chunk\<close> and \<open>max_chunk\<close> one value, unless it
  returns false early (\<open>Inconclusive\<close>: no row index for the column, or the statistics
  do not decode). \<open>entry(rowGroupIdx)\<close> and \<open>partition_values[part_idx]\<close> are not
  bounds-checked: out of range they are \<open>InvalidIndex\<close>.
\<close>

datatype reference_rows = InvalidIndex | Inconclusive | Rows "Datum list" "Datum list"

definition slot_min_max ::
  "HdfsScannerContext \<Rightarrow> 'stats OrcChunkReader \<Rightarrow> OrcRowReaderFilter \<Rightarrow> nat \<Rightarrow>
   'stats RowIndexes \<Rightarrow> SlotDescriptor \<Rightarrow> reference_rows" where
  "slot_min_max ctx reader f rowGroupIdx rowIndexes slot =
     (let column_index = get_column_id_by_name reader (col_name slot) in
      if column_index \<ge> 0 then
        (case map_of rowIndexes (nat column_index) of
           None \<Rightarrow> Inconclusive
         | Some row_index \<Rightarrow>
             if rowGroupIdx < length row_index then
               (case decode_min_max_value reader slot (row_index ! rowGroupIdx)
                       (tzoffset_in_seconds reader - writer_tzoffset_in_seconds f) of
                  None \<Rightarrow> Inconclusive
                | Some (min_value, max_value) \<Rightarrow> Rows [min_value] [max_value])
             else InvalidIndex)
      else
        (let part_idx = find_partition_column (partition_columns ctx) (col_name slot) 0 in
         if part_idx = length (partition_columns ctx) then Rows [DatumNull] [DatumNull]
         else if part_idx < length (partition_values ctx)
         then Rows [partition_values ctx ! part_idx] [partition_values ctx ! part_idx]
         else InvalidIndex))"

fun fill_min_max_chunks ::
  "HdfsScannerContext \<Rightarrow> 'stats OrcChunkReader \<Rightarrow> OrcRowReaderFilter \<Rightarrow> nat \<Rightarrow>
   'stats RowIndexes \<Rightarrow> SlotDescriptor list \<Rightarrow> reference_rows" where
  "fill_min_max_chunks ctx reader f rowGroupIdx rowIndexes [] = Rows [] []"
| "fill_min_max_chunks ctx reader f rowGroupIdx rowIndexes (slot # slots) =
     (case slot_min_max ctx reader f rowGroupIdx rowIndexes slot of
        Rows min_value max_value \<Rightarrow>
          (case fill_min_max_chunks ctx reader f rowGroupIdx rowIndexes slots of
             Rows min_row max_row \<Rightarrow> Rows (min_value @ min_row) (max_value @ max_row)
           | r \<Rightarrow> r)
      | r \<Rightarrow> r)"

text \<open>The second loop returns true at the first conjunct that is 0 on both rows.\<close>

fun some_conjunct_false :: "MinMaxConjunct list \<Rightarrow> Datum list \<Rightarrow> Datum list \<Rightarrow> bool" where
  "some_conjunct_false [] min_row max_row = False"
| "some_conjunct_false (c # cs) min_row max_row =
     (if c min_row = 0 \<and> c max_row = 0 then True else some_conjunct_false cs min_row max_row)"

text \<open>\<open>filterMinMax\<close>, given the slots of the min/max tuple descriptor; \<open>None\<close> is the
  invalid index.\<close>

definition filterMinMax ::
  "HdfsScannerContext \<Rightarrow> 'stats OrcChunkReader \<Rightarrow> OrcRowReaderFilter \<Rightarrow> SlotDescriptor list \<Rightarrow>
   nat \<Rightarrow> 'stats RowIndexes \<Rightarrow> bool option" where
  "filterMinMax ctx reader f slots rowGroupIdx rowIndexes =
     (case fill_min_max_chunks ctx reader f rowGroupIdx rowIndexes slots of
        InvalidIndex \<Rightarrow> None
      | Inconclusive \<Rightarrow> Some False
      | Rows min_row max_row \<Rightarrow>
          Some (some_conjunct_false (min_max_conjunct_ctxs ctx) min_row max_row))"

definition filterOnPickRowGroup ::
  "HdfsScannerParams \<Rightarrow> HdfsScannerContext \<Rightarrow> 'stats OrcChunkReader \<Rightarrow> OrcRowReaderFilter \<Rightarrow>
   nat \<Rightarrow> 'stats RowIndexes \<Rightarrow> bool option" where
  "filterOnPickRowGroup scanner_params ctx reader f rowGroupIdx rowIndexes =
     (case min_max_tuple_desc scanner_params of
        None \<Rightarrow> Some False
      | Some slots \<Rightarrow>
          (case filterMinMax ctx reader f slots rowGroupIdx rowIndexes of
             None \<Rightarrow> None
           | Some skip \<Rightarrow> if skip then Some True else Some False))"

text \<open>The claim's condition in its own words: every conjunct is false on both rows.\<close>

definition every_conjunct_false :: "MinMaxConjunct list \<Rightarrow> Datum list \<Rightarrow> Datum list \<Rightarrow> bool" where
  "every_conjunct_false cs min_row max_row = list_all (\<lambda>c. c min_row = 0 \<and> c max_row = 0) cs"

text \<open>
  A row group of column \<open>a\<close> with minimum 1 and maximum 50, under the conjuncts
  \<open>a > 100\<close> and \<open>a < 1000\<close>.
\<close>

fun a_greater_100 :: MinMaxConjunct where
  "a_greater_100 [DatumInt a] = (if a > 100 then 1 else 0)"
| "a_greater_100 row = 0"

fun a_less_1000 :: MinMaxConjunct where
  "a_less_1000 [DatumInt a] = (if a < 1000 then 1 else 0)"
| "a_less_1000 row = 0"

definition slot_a :: SlotDescriptor where
  "slot_a = \<lparr>slot_id = 1, col_name = ''a'', slot_type = TYPE_BIGINT\<rparr>"

definition example_params :: HdfsScannerParams where
  "example_params = \<lparr>min_max_tuple_desc = Some [slot_a], scan_ranges = example_ranges\<rparr>"

definition example_ctx :: HdfsScannerContext where
  "example_ctx =
     \<lparr>partition_columns = [], partition_values = [],
      min_max_conjunct_ctxs = [a_greater_100, a_less_1000],
      materialized_columns = [], can_use_dict_filter_on_slot = (\<lambda>slot. False),
      conjunct_ctxs_by_slot = []\<rparr>"

definition example_row_indexes :: "(int \<times> int) RowIndexes" where
  "example_row_indexes = [(1, [(1, 50), (200, 300)])]"

subsection \<open>\<open>filterOnPickStringDictionary\<close>\<close>

text \<open>\<open>remove_trailing_spaces(s, size)\<close>; a space is the byte 32.\<close>

fun remove_trailing_spaces :: "8 word list \<Rightarrow> nat \<Rightarrow> nat" where
  "remove_trailing_spaces s 0 = 0"
| "remove_trailing_spaces s (Suc n) =
     (if s ! n = 32 then remove_trailing_spaces s n else Suc n)"

text \<open>The first call collects the slots to filter by dictionary, in column order.\<close>

fun collect_dict_filter_slots ::
  "HdfsScannerContext \<Rightarrow> 'stats OrcChunkReader \<Rightarrow> ColumnInfo list \<Rightarrow> (SlotDescriptor \<times> nat) list" where
  "collect_dict_filter_slots ctx reader [] = []"
| "collect_dict_filter_slots ctx reader (col # cols) =
     (if \<not> can_use_dict_filter_on_slot ctx (slot_desc col)
      then collect_dict_filter_slots ctx reader cols
      else if get_column_id_by_name reader (column_name col) < 0
      then collect_dict_filter_slots ctx reader cols
      else (slot_desc col, nat (get_column_id_by_name reader (column_name col)))
           # collect_dict_filter_slots ctx reader cols)"

text \<open>
  Modelled from the spec: \<open>NullableColumn\<close> is declared outside hdfs_scanner_orc.cpp; it
  pairs a data column with a null column of the same length. Row \<open>i\<close> of a binary column
  is the slice of the bytes between offsets \<open>i\<close> and \<open>i + 1\<close>.
\<close>

record NullableBinaryColumn =
  data_column :: BinaryColumn
  nulls :: NullData

definition binary_row :: "BinaryColumn \<Rightarrow> nat \<Rightarrow> 8 word list" where
  "binary_row c i = take (offsets c ! (i + 1) - offsets c ! i) (drop (offsets c ! i) (bytes c))"

definition nullable_rows :: "NullableBinaryColumn \<Rightarrow> Datum list" where
  "nullable_rows col =
     map (\<lambda>i. if nulls col ! i \<noteq> 0 then DatumNull else DatumBinary (binary_row (data_column col) i))
       [0..<length (nulls col)]"

text \<open>
  The source reads the blob through the dictionary's offsets and computes
  \<open>offset_size - 1\<close> in \<open>size_t\<close>. It takes for granted what ORC guarantees: at least one
  offset, offsets that do not decrease, start at or after 0 and end within the blob.
\<close>

definition dictionary_ok :: "StringDictionary \<Rightarrow> bool" where
  "dictionary_ok dict =
     (dictionaryOffset dict \<noteq> [] \<and> sorted (dictionaryOffset dict)
      \<and> 0 \<le> hd (dictionaryOffset dict)
      \<and> last (dictionaryOffset dict) \<le> int (length (dictionaryBlob dict)))"

text \<open>
  The loop of the \<open>TYPE_CHAR\<close> branch, from index \<open>i\<close> for \<open>n\<close> more values: each value
  is appended without its trailing spaces and \<open>offsets[i]\<close> is the total so far.
\<close>

fun char_dict_loop ::
  "8 word list \<Rightarrow> int list \<Rightarrow> nat \<Rightarrow> nat \<Rightarrow> BinaryColumn \<Rightarrow> nat \<Rightarrow> BinaryColumn \<times> nat" where
  "char_dict_loop blob offset_data i 0 c total_size = (c, total_size)"
| "char_dict_loop blob offset_data i (Suc n) c total_size =
     (let s = drop (nat (offset_data ! i)) blob;
          old_size = nat (offset_data ! (i + 1) - offset_data ! i);
          new_size = remove_trailing_spaces s old_size
      in char_dict_loop blob offset_data (i + 1) n
           (c\<lparr>bytes := bytes c @ take new_size s, offsets := (offsets c)[i := total_size]\<rparr>)
           (total_size + new_size))"

text \<open>
  The column of dictionary values: a new nullable binary column, the offsets resized to the
  dictionary's, bytes and offsets copied (trimmed for \<open>TYPE_CHAR\<close>), \<open>dict_size\<close> rows
  marked not null, and one null row appended with the empty string as its value.
  \<open>None\<close> when the dictionary is not as ORC guarantees.
\<close>

definition dict_value_column :: "SlotDescriptor \<Rightarrow> StringDictionary \<Rightarrow> NullableBinaryColumn option" where
  "dict_value_column slot dict =
     (if \<not> dictionary_ok dict then None
      else
        (let blob = dictionaryBlob dict;
             offset_data = dictionaryOffset dict;
             offset_size = length offset_data;
             dict_size = offset_size - 1;
             c0 = BinaryColumn_new\<lparr>offsets := vector_resize offset_size (offsets BinaryColumn_new)\<rparr>;
             c1 = (if slot_type slot = TYPE_CHAR then
                     (case char_dict_loop blob offset_data 0 dict_size c0 0 of
                        (c, total_size) \<Rightarrow> c\<lparr>offsets := (offsets c)[dict_size := total_size]\<rparr>)
                   else c0\<lparr>bytes := bytes c0 @ blob, offsets := map nat offset_data\<rparr>)
         in Some \<lparr>data_column = BinaryColumn_append_default c1,
                  nulls = replicate dict_size 0 @ [1]\<rparr>))"

text \<open>
  Modelled from the spec: \<open>ExecNode::eval_conjuncts\<close> is declared outside
  hdfs_scanner_orc.cpp. It evaluates the conjuncts against the chunk, keeps the rows
  on which all of them hold, and hands out the per-row filter; without conjuncts it
  returns at once and leaves the filter as it was.
\<close>

definition eval_conjuncts ::
  "SlotConjunct list \<Rightarrow> Datum list \<Rightarrow> Filter option \<Rightarrow> Datum list \<times> Filter option" where
  "eval_conjuncts ctxs rows filter_ptr =
     (if ctxs = [] then (rows, filter_ptr)
      else (filter (\<lambda>row. list_all (\<lambda>c. c row) ctxs) rows,
            Some (map (\<lambda>row. of_bool (list_all (\<lambda>c. c row) ctxs)) rows)))"

text \<open>\<open>_dict_filter_eval_cache[slot_id] = v\<close> on the association list.\<close>

definition cache_put :: "SlotId \<Rightarrow> Filter option \<Rightarrow> (SlotId \<times> Filter option) list \<Rightarrow> (SlotId \<times> Filter option) list" where
  "cache_put k v m = (k, v) # filter (\<lambda>e. fst e \<noteq> k) m"

text \<open>
  The loop over \<open>_use_dict_filter_slots\<close>. \<open>None\<close> stands for a dictionary that is not
  as ORC guarantees and for \<open>conjunct_ctxs_by_slot.at\<close> throwing on a slot without
  conjuncts.
\<close>

fun dict_filter_loop ::
  "HdfsScannerContext \<Rightarrow> 'stats OrcChunkReader \<Rightarrow> (nat \<times> StringDictionary) list \<Rightarrow>
   (SlotDescriptor \<times> nat) list \<Rightarrow> OrcRowReaderFilter \<Rightarrow> (bool \<times> OrcRowReaderFilter) option" where
  "dict_filter_loop ctx reader sdicts [] f = Some (False, f)"
| "dict_filter_loop ctx reader sdicts ((slot, column_index) # ps) f =
     (case map_of sdicts column_index of
        None \<Rightarrow> dict_filter_loop ctx reader sdicts ps f
      | Some dict \<Rightarrow>
          if length (dictionaryOffset dict) > chunk_size reader
          then dict_filter_loop ctx reader sdicts ps f
          else
            (case dict_value_column slot dict of
               None \<Rightarrow> None
             | Some col \<Rightarrow>
                 (case map_of (conjunct_ctxs_by_slot ctx) (slot_id slot) of
                    None \<Rightarrow> None
                  | Some ctxs \<Rightarrow>
                      (case eval_conjuncts ctxs (nullable_rows col) None of
                         (rows, flt) \<Rightarrow>
                           (let f' = (if can_do_filter_on_orc_cvb f
                                      then f\<lparr>dict_filter_eval_cache :=
                                             cache_put (slot_id slot) flt (dict_filter_eval_cache f)\<rparr>
                                      else f)
                            in if length rows = 0
                               then Some (True, f'\<lparr>dict_filter_eval_cache := []\<rparr>)
                               else dict_filter_loop ctx reader sdicts ps f')))))"

definition filterOnPickStringDictionary ::
  "HdfsScannerContext \<Rightarrow> 'stats OrcChunkReader \<Rightarrow> OrcRowReaderFilter \<Rightarrow>
   (nat \<times> StringDictionary) list \<Rightarrow> (bool \<times> OrcRowReaderFilter) option" where
  "filterOnPickStringDictionary ctx reader f sdicts =
     (if sdicts = [] then Some (False, f)
      else
        (let f1 = (if \<not> init_use_dict_filter_slots f
                   then f\<lparr>use_dict_filter_slots :=
                            use_dict_filter_slots f
                            @ collect_dict_filter_slots ctx reader (materialized_columns ctx),
                          init_use_dict_filter_slots := True\<rparr>
                   else f);
             f2 = f1\<lparr>dict_filter_eval_cache := []\<rparr>
         in dict_filter_loop ctx reader sdicts (use_dict_filter_slots f2) f2))"

text \<open>
  The words of the claim. A slot qualifies in a stripe when the stripe has a dictionary for
  its column with at most \<open>chunk_size\<close> offsets, that is fewer values than the chunk size.
  Its dictionary rows are the values in order (a \<open>TYPE_CHAR\<close> value without its trailing
  spaces) and one trailing null. Its conjuncts reject a row when not all of them hold.
\<close>

definition slot_qualifies ::
  "'stats OrcChunkReader \<Rightarrow> (nat \<times> StringDictionary) list \<Rightarrow> SlotDescriptor \<times> nat \<Rightarrow> bool" where
  "slot_qualifies reader sdicts p =
     (case map_of sdicts (snd p) of
        None \<Rightarrow> False
      | Some dict \<Rightarrow> length (dictionaryOffset dict) \<le> chunk_size reader)"

definition dictionary_value :: "PrimitiveType \<Rightarrow> StringDictionary \<Rightarrow> nat \<Rightarrow> 8 word list" where
  "dictionary_value t dict i =
     (let s = drop (nat (dictionaryOffset dict ! i)) (dictionaryBlob dict);
          n = nat (dictionaryOffset dict ! (i + 1) - dictionaryOffset dict ! i)
      in if t = TYPE_CHAR then take (remove_trailing_spaces s n) s else take n s)"

definition dictionary_rows :: "PrimitiveType \<Rightarrow> StringDictionary \<Rightarrow> Datum list" where
  "dictionary_rows t dict =
     map (\<lambda>i. DatumBinary (dictionary_value t dict i)) [0..<length (dictionaryOffset dict) - 1]
     @ [DatumNull]"

definition slot_rejects_all ::
  "HdfsScannerContext \<Rightarrow> (nat \<times> StringDictionary) list \<Rightarrow> SlotDescriptor \<times> nat \<Rightarrow> bool" where
  "slot_rejects_all ctx sdicts p =
     (case (map_of sdicts (snd p), map_of (conjunct_ctxs_by_slot ctx) (slot_id (fst p))) of
        (Some dict, Some ctxs) \<Rightarrow>
          list_all (\<lambda>row. \<not> list_all (\<lambda>c. c row) ctxs) (dictionary_rows (slot_type (fst p)) dict)
      | other \<Rightarrow> False)"

text \<open>The slots the loop runs over in this call: collected at the first call, kept after.\<close>

definition dict_filter_slots ::
  "HdfsScannerContext \<Rightarrow> 'stats OrcChunkReader \<Rightarrow> OrcRowReaderFilter \<Rightarrow> (SlotDescriptor \<times> nat) list" where
  "dict_filter_slots ctx reader f =
     (if init_use_dict_filter_slots f then use_dict_filter_slots f
      else use_dict_filter_slots f @ collect_dict_filter_slots ctx reader (materialized_columns ctx))"

text \<open>
  A stripe with dictionaries for the string columns \<open>s\<close> (the single value \<open>z\<close>) and
  \<open>t\<close> (the single value \<open>y\<close>), under the conjuncts \<open>s = 'x'\<close> and \<open>t = 'y'\<close>;
  and a stripe whose \<open>TYPE_CHAR\<close> column \<open>s\<close> holds \<open>'x  '\<close>, padded with spaces.
\<close>

definition slot_s :: SlotDescriptor where
  "slot_s = \<lparr>slot_id = 2, col_name = ''s'', slot_type = TYPE_VARCHAR\<rparr>"

definition slot_t :: SlotDescriptor where
  "slot_t = \<lparr>slot_id = 3, col_name = ''t'', slot_type = TYPE_VARCHAR\<rparr>"

definition slot_s_char :: SlotDescriptor where
  "slot_s_char = \<lparr>slot_id = 2, col_name = ''s'', slot_type = TYPE_CHAR\<rparr>"

definition equals_x :: SlotConjunct where
  "equals_x d = (d = DatumBinary [120])"

definition equals_y :: SlotConjunct where
  "equals_y d = (d = DatumBinary [121])"

definition string_ctx :: HdfsScannerContext where
  "string_ctx =
     \<lparr>partition_columns = [], partition_values = [], min_max_conjunct_ctxs = [],
      materialized_columns =
        [\<lparr>column_name = ''s'', slot_desc = slot_s\<rparr>, \<lparr>column_name = ''t'', slot_desc = slot_t\<rparr>],
      can_use_dict_filter_on_slot = (\<lambda>slot. True),
      conjunct_ctxs_by_slot = [(2, [equals_x]), (3, [equals_y])]\<rparr>"

definition char_ctx :: HdfsScannerContext where
  "char_ctx =
     \<lparr>partition_columns = [], partition_values = [], min_max_conjunct_ctxs = [],
      materialized_columns = [\<lparr>column_name = ''s'', slot_desc = slot_s_char\<rparr>],
      can_use_dict_filter_on_slot = (\<lambda>slot. True),
      conjunct_ctxs_by_slot = [(2, [equals_x])]\<rparr>"

definition string_dicts :: "(nat \<times> StringDictionary) list" where
  "string_dicts =
     [(2, \<lparr>dictionaryBlob = [122], dictionaryOffset = [0, 1]\<rparr>),
      (3, \<lparr>dictionaryBlob = [121], dictionaryOffset = [0, 1]\<rparr>)]"

definition char_dicts :: "(nat \<times> StringDictionary) list" where
  "char_dicts = [(2, \<lparr>dictionaryBlob = [120, 32, 32], dictionaryOffset = [0, 3]\<rparr>)]"

definition no_ranges :: HdfsScannerParams where
  "no_ranges = \<lparr>min_max_tuple_desc = None, scan_ranges = []\<rparr>"

subsection \<open>Chunks\<close>

text \<open>
  Modelled from the spec: \<open>Chunk\<close> and \<open>Status\<close> are declared outside
  hdfs_scanner_orc.cpp. A chunk is "an ordered mapping from a stable slot identifier to a
  Column": its columns in order and the map from slot id to column index, an
  \<open>unordered_map\<close> kept as an association list read with \<open>map_of\<close>. A column is the list
  of its rows. \<open>get_column_by_slot_id\<close> does not check that the slot exists; a missing
  slot or an index outside the columns is \<open>None\<close>.
\<close>

datatype Status = OK | EndOfFile string | InternalError string

record Chunk =
  columns :: "Datum list list"
  slot_id_to_index :: "(SlotId \<times> nat) list"

definition Chunk_new :: Chunk where
  "Chunk_new = \<lparr>columns = [], slot_id_to_index = []\<rparr>"

definition num_rows :: "Chunk \<Rightarrow> nat" where
  "num_rows c = (case columns c of [] \<Rightarrow> 0 | col # cols \<Rightarrow> length col)"

definition get_column_index :: "Chunk \<Rightarrow> SlotId \<Rightarrow> nat option" where
  "get_column_index c sid =
     (case map_of (slot_id_to_index c) sid of
        None \<Rightarrow> None
      | Some i \<Rightarrow> if i < length (columns c) then Some i else None)"

definition get_column_by_slot_id :: "Chunk \<Rightarrow> SlotId \<Rightarrow> Datum list option" where
  "get_column_by_slot_id c sid = map_option (\<lambda>i. columns c ! i) (get_column_index c sid)"

text \<open>\<open>set_num_rows\<close> resizes every column; a column that grows is filled with nulls.\<close>

definition set_num_rows :: "nat \<Rightarrow> Chunk \<Rightarrow> Chunk" where
  "set_num_rows n c =
     c\<lparr>columns := map (\<lambda>col. take n col @ replicate (n - length col) DatumNull) (columns c)\<rparr>"

text \<open>\<open>filter\<close> keeps the rows whose filter byte is not 0.\<close>

definition filter_chunk :: "Filter \<Rightarrow> Chunk \<Rightarrow> Chunk" where
  "filter_chunk flt c =
     c\<lparr>columns := map (\<lambda>col. map fst (filter (\<lambda>e. snd e \<noteq> 0) (zip col flt))) (columns c)\<rparr>"

definition append_column :: "Datum list \<Rightarrow> SlotId \<Rightarrow> Chunk \<Rightarrow> Chunk" where
  "append_column col sid c =
     c\<lparr>slot_id_to_index := (sid, length (columns c)) # filter (\<lambda>e. fst e \<noteq> sid) (slot_id_to_index c),
       columns := columns c @ [col]\<rparr>"

text \<open>\<open>merge\<close> appends every column of the other chunk under its slot id.\<close>

fun merge_columns :: "(SlotId \<times> nat) list \<Rightarrow> Chunk \<Rightarrow> Chunk \<Rightarrow> Chunk option" where
  "merge_columns [] other c = Some c"
| "merge_columns ((sid, i) # es) other c =
     (if i < length (columns other)
      then merge_columns es other (append_column (columns other ! i) sid c)
      else None)"

definition merge_chunk :: "Chunk \<Rightarrow> Chunk \<Rightarrow> Chunk option" where
  "merge_chunk c other = merge_columns (slot_id_to_index other) other c"

subsection \<open>\<open>HdfsOrcScanner::do_get_next\<close>\<close>

text \<open>
  The lambda \<open>convert_to_output\<close>: for every slot of the caller's chunk, in the order the
  map is walked, the column of that slot in the caller's chunk and the column of that slot
  in \<open>ck\<close> swap their contents.
\<close>

fun swap_columns :: "(SlotId \<times> nat) list \<Rightarrow> Chunk \<Rightarrow> Chunk \<Rightarrow> (Chunk \<times> Chunk) option" where
  "swap_columns [] chunk ck = Some (chunk, ck)"
| "swap_columns ((sid, i) # es) chunk ck =
     (case (get_column_index chunk sid, get_column_index ck sid) of
        (Some a, Some b) \<Rightarrow>
          swap_columns es
            (chunk\<lparr>columns := (columns chunk)[a := columns ck ! b]\<rparr>)
            (ck\<lparr>columns := (columns ck)[b := columns chunk ! a]\<rparr>)
      | other \<Rightarrow> None)"

definition convert_to_output :: "Chunk \<Rightarrow> Chunk \<Rightarrow> (Chunk \<times> Chunk) option" where
  "convert_to_output chunk ck = swap_columns (slot_id_to_index chunk) chunk ck"

text \<open>
  Modelled from the spec: the operations of \<open>OrcChunkReader\<close> that \<open>do_get_next\<close> calls,
  as functions on the reader's state \<open>'r\<close>. The state includes the row reader filter the
  reader calls back while it reads, so \<open>dict_filter_cache\<close> reads the filter's
  \<open>_dict_filter_eval_cache\<close> from it. A \<open>StatusOr\<close> is the status paired with the value,
  which is read only when the status is OK.
\<close>

record ReadPosition =
  num_values :: nat
  row_in_stripe :: nat

record 'r OrcChunkReader_ops =
  read_next :: "'r \<Rightarrow> (Status \<times> ReadPosition) \<times> 'r"
  apply_dict_filter_eval_cache :: "(SlotId \<times> Filter option) list \<Rightarrow> 'r \<Rightarrow> (Status \<times> Filter) \<times> 'r"
  get_cvb_size :: "'r \<Rightarrow> nat"
  has_lazy_load_context :: "'r \<Rightarrow> bool"
  get_chunk :: "'r \<Rightarrow> (Status \<times> Chunk) \<times> 'r"
  get_active_chunk :: "'r \<Rightarrow> (Status \<times> Chunk) \<times> 'r"
  lazy_seek_to :: "nat \<Rightarrow> 'r \<Rightarrow> 'r"
  lazy_read_next :: "nat \<Rightarrow> 'r \<Rightarrow> 'r"
  lazy_filter_on_cvb :: "Filter \<Rightarrow> 'r \<Rightarrow> 'r"
  get_lazy_chunk :: "'r \<Rightarrow> (Status \<times> Chunk) \<times> 'r"
  dict_filter_cache :: "'r \<Rightarrow> (SlotId \<times> Filter option) list"

text \<open>
  Modelled from the spec: the methods of \<open>HdfsScannerContext\<close> and \<open>ExecNode\<close> that
  \<open>do_get_next\<close> calls. \<open>eval_conjuncts_into_filter\<close> returns the number of surviving
  rows, or an error status, and updates the filter.
\<close>

record HdfsScannerContext_ops =
  append_not_existed_columns_to_chunk :: "Chunk \<Rightarrow> nat \<Rightarrow> Chunk"
  append_partition_column_to_chunk :: "Chunk \<Rightarrow> nat \<Rightarrow> Chunk"
  eval_conjuncts_into_filter :: "SlotConjunct list \<Rightarrow> Chunk \<Rightarrow> Filter \<Rightarrow> (Status \<times> nat) \<times> Filter"

text \<open>
  The scanner's members that \<open>do_get_next\<close> touches, and the local chunk \<open>ck\<close>, which
  is declared before the retry loop and so lives across its rounds.
\<close>

record 'r HdfsOrcScanner =
  should_skip_file :: bool
  orc_reader :: 'r
  raw_rows_read :: int
  chunk_filter :: Filter
  dict_filter :: Filter
  ck :: Chunk

text \<open>
  What a call gives back: the status, or \<open>InvalidAccess\<close> when a chunk is asked for a
  column it does not have; with it the caller's chunk and the scanner.
\<close>

datatype get_next_result = Returned Status | InvalidAccess

text \<open>The loop over \<open>conjunct_ctxs_by_slot\<close>, with its \<open>continue\<close> and \<open>break\<close>.\<close>

fun eval_slot_conjuncts ::
  "HdfsScannerContext_ops \<Rightarrow> (SlotId \<times> Filter option) list \<Rightarrow> (SlotId \<times> SlotConjunct list) list \<Rightarrow>
   Chunk \<Rightarrow> nat \<Rightarrow> Filter \<Rightarrow> (Status + nat) \<times> Filter" where
  "eval_slot_conjuncts cops cache [] c chunk_rows flt = (Inr chunk_rows, flt)"
| "eval_slot_conjuncts cops cache ((sid, ctxs) # rest) c chunk_rows flt =
     (if map_of cache sid \<noteq> None then eval_slot_conjuncts cops cache rest c chunk_rows flt
      else case eval_conjuncts_into_filter cops ctxs c flt of
          ((st, n), flt') \<Rightarrow>
            if st \<noteq> OK then (Inl st, flt')
            else if n = 0 then (Inr 0, flt')
            else eval_slot_conjuncts cops cache rest c n flt')"

text \<open>
  One round of the loop up to \<open>ck->set_num_rows(chunk_size)\<close>: either an early return
  with an error status, or the position, the number of values read, whether the
  dictionary filter was used, the number of surviving rows and the scanner.
\<close>

text \<open>The local \<open>chunk_size\<close> of the source is \<open>chunk_rows\<close> here.\<close>

datatype 'r filtered =
    Failed Status "'r HdfsOrcScanner"
  | Filtered ReadPosition nat bool nat "'r HdfsOrcScanner"

definition filter_chunk_rows ::
  "'r OrcChunkReader_ops \<Rightarrow> HdfsScannerContext_ops \<Rightarrow> HdfsScannerContext \<Rightarrow>
   'r HdfsOrcScanner \<Rightarrow> Chunk \<Rightarrow> (Status + nat) \<times> 'r HdfsOrcScanner" where
  "filter_chunk_rows ops cops ctx s c0 =
     (let c1 = append_not_existed_columns_to_chunk cops c0 (num_rows c0);
          c2 = append_partition_column_to_chunk cops c1 (num_rows c1);
          chunk_rows = num_rows c2;
          s1 = s\<lparr>ck := c2, raw_rows_read := raw_rows_read s + int chunk_rows,
                 chunk_filter := replicate chunk_rows 1\<rparr>
      in case eval_slot_conjuncts cops (dict_filter_cache ops (orc_reader s1))
                (conjunct_ctxs_by_slot ctx) c2 chunk_rows (chunk_filter s1) of
           (Inl st, flt) \<Rightarrow> (Inl st, s1\<lparr>chunk_filter := flt\<rparr>)
         | (Inr n, flt) \<Rightarrow>
             (Inr n,
              if n \<noteq> 0 \<and> n \<noteq> num_rows c2
              then s1\<lparr>chunk_filter := flt, ck := filter_chunk flt c2\<rparr>
              else s1\<lparr>chunk_filter := flt\<rparr>))"

definition read_and_filter ::
  "'r OrcChunkReader_ops \<Rightarrow> HdfsScannerContext_ops \<Rightarrow> HdfsScannerContext \<Rightarrow>
   'r HdfsOrcScanner \<Rightarrow> 'r filtered" where
  "read_and_filter ops cops ctx s =
     (case read_next ops (orc_reader s) of
        ((st, position), r1) \<Rightarrow>
          if st \<noteq> OK then Failed st (s\<lparr>orc_reader := r1\<rparr>)
          else
            (case apply_dict_filter_eval_cache ops (dict_filter_cache ops r1) r1 of
               ((st2, dflt), r2) \<Rightarrow>
                 let s2 = s\<lparr>orc_reader := r2, dict_filter := dflt\<rparr> in
                 if st2 \<noteq> OK then Failed st2 s2
                 else
                   (let read_num_values = num_values position;
                        has_used_dict_filter = (get_cvb_size ops r2 \<noteq> read_num_values)
                    in if get_cvb_size ops r2 \<noteq> 0 then
                         (case (if \<not> has_lazy_load_context ops r2 then get_chunk ops r2
                                else get_active_chunk ops r2) of
                            ((st3, c0), r3) \<Rightarrow>
                              if st3 \<noteq> OK then Failed st3 (s2\<lparr>orc_reader := r3\<rparr>)
                              else
                                (case filter_chunk_rows ops cops ctx (s2\<lparr>orc_reader := r3\<rparr>) c0 of
                                   (Inl st4, s4) \<Rightarrow> Failed st4 s4
                                 | (Inr chunk_rows, s4) \<Rightarrow>
                                     Filtered position read_num_values has_used_dict_filter chunk_rows
                                       (s4\<lparr>ck := set_num_rows chunk_rows (ck s4)\<rparr>)))
                       else
                         Filtered position read_num_values has_used_dict_filter 0
                           (s2\<lparr>ck := set_num_rows 0 (ck s2)\<rparr>))))"

text \<open>The end of a round that has rows and lazy slots: read and filter the lazy columns,
  merge them into \<open>ck\<close> and hand the columns over.\<close>

definition return_output ::
  "Chunk \<Rightarrow> 'r HdfsOrcScanner \<Rightarrow> get_next_result \<times> Chunk \<times> 'r HdfsOrcScanner" where
  "return_output chunk s =
     (case convert_to_output chunk (ck s) of
        None \<Rightarrow> (InvalidAccess, chunk, s)
      | Some (chunk', ck') \<Rightarrow> (Returned OK, chunk', s\<lparr>ck := ck'\<rparr>))"

definition load_lazy_columns ::
  "'r OrcChunkReader_ops \<Rightarrow> Chunk \<Rightarrow> ReadPosition \<Rightarrow> nat \<Rightarrow> bool \<Rightarrow> 'r HdfsOrcScanner \<Rightarrow>
   get_next_result \<times> Chunk \<times> 'r HdfsOrcScanner" where
  "load_lazy_columns ops chunk position read_num_values has_used_dict_filter s =
     (let r1 = lazy_read_next ops read_num_values (lazy_seek_to ops (row_in_stripe position) (orc_reader s));
          r2 = (if has_used_dict_filter then lazy_filter_on_cvb ops (dict_filter s) r1 else r1);
          r3 = lazy_filter_on_cvb ops (chunk_filter s) r2
      in case get_lazy_chunk ops r3 of
           ((st, ret_ck), r4) \<Rightarrow>
             if st \<noteq> OK then (Returned st, chunk, s\<lparr>orc_reader := r4\<rparr>)
             else
               (case merge_chunk (ck s) ret_ck of
                  None \<Rightarrow> (InvalidAccess, chunk, s\<lparr>orc_reader := r4\<rparr>)
                | Some merged \<Rightarrow> return_output chunk (s\<lparr>orc_reader := r4, ck := merged\<rparr>)))"

text \<open>One round: it ends the call or asks for another round.\<close>

datatype 'r round = Retry "'r HdfsOrcScanner" | Finish "get_next_result \<times> Chunk \<times> 'r HdfsOrcScanner"

definition read_round ::
  "'r OrcChunkReader_ops \<Rightarrow> HdfsScannerContext_ops \<Rightarrow> HdfsScannerContext \<Rightarrow> Chunk \<Rightarrow>
   'r HdfsOrcScanner \<Rightarrow> 'r round" where
  "read_round ops cops ctx chunk s =
     (case read_and_filter ops cops ctx s of
        Failed st s' \<Rightarrow> Finish (Returned st, chunk, s')
      | Filtered position read_num_values has_used_dict_filter chunk_rows s' \<Rightarrow>
          if \<not> has_lazy_load_context ops (orc_reader s') then Finish (return_output chunk s')
          else if chunk_rows = 0 then Retry s'
          else Finish (load_lazy_columns ops chunk position read_num_values has_used_dict_filter s'))"

text \<open>
  The retry loop \<open>for (;;)\<close>. It ends only when a round ends the call, so it is a partial
  function: \<open>None\<close> is the call that never returns.
\<close>

partial_function (option) retry_loop ::
  "'r OrcChunkReader_ops \<Rightarrow> HdfsScannerContext_ops \<Rightarrow> HdfsScannerContext \<Rightarrow> Chunk \<Rightarrow>
   'r HdfsOrcScanner \<Rightarrow> (get_next_result \<times> Chunk \<times> 'r HdfsOrcScanner) option" where
  "retry_loop ops cops ctx chunk s =
     (case read_round ops cops ctx chunk s of
        Retry s' \<Rightarrow> retry_loop ops cops ctx chunk s'
      | Finish res \<Rightarrow> Some res)"

declare retry_loop.simps [code]

definition do_get_next ::
  "'r OrcChunkReader_ops \<Rightarrow> HdfsScannerContext_ops \<Rightarrow> HdfsScannerContext \<Rightarrow> Chunk \<Rightarrow>
   'r HdfsOrcScanner \<Rightarrow> (get_next_result \<times> Chunk \<times> 'r HdfsOrcScanner) option" where
  "do_get_next ops cops ctx chunk s =
     (if should_skip_file s then Some (Returned (EndOfFile []), chunk, s)
      else retry_loop ops cops ctx chunk (s\<lparr>ck := Chunk_new\<rparr>))"

text \<open>
  A reader for concrete runs. Its state is the row group at hand and the row groups still
  to come, each with its active and its lazy chunk; after the last one it reports the end
  of the file. The conjunct \<open>a > 100\<close> belongs to slot 1, the first column of the active
  chunk; the caller expects the lazy slot 3 first and slot 1 second.
\<close>

type_synonym example_state = "(Chunk \<times> Chunk) option \<times> (Chunk \<times> Chunk) list"

definition example_ops :: "example_state OrcChunkReader_ops" where
  "example_ops =
     \<lparr>read_next = (\<lambda>r. case snd r of
          [] \<Rightarrow> ((EndOfFile [], \<lparr>num_values = 0, row_in_stripe = 0\<rparr>), r)
        | b # bs \<Rightarrow> ((OK, \<lparr>num_values = num_rows (fst b), row_in_stripe = 0\<rparr>), (Some b, bs))),
      apply_dict_filter_eval_cache = (\<lambda>cache r. ((OK, []), r)),
      get_cvb_size = (\<lambda>r. case fst r of None \<Rightarrow> 0 | Some b \<Rightarrow> num_rows (fst b)),
      has_lazy_load_context = (\<lambda>r. True),
      get_chunk = (\<lambda>r. ((OK, case fst r of None \<Rightarrow> Chunk_new | Some b \<Rightarrow> fst b), r)),
      get_active_chunk = (\<lambda>r. ((OK, case fst r of None \<Rightarrow> Chunk_new | Some b \<Rightarrow> fst b), r)),
      lazy_seek_to = (\<lambda>n r. r),
      lazy_read_next = (\<lambda>n r. r),
      lazy_filter_on_cvb = (\<lambda>flt r. case fst r of
          None \<Rightarrow> r
        | Some b \<Rightarrow> (Some (fst b, filter_chunk flt (snd b)), snd r)),
      get_lazy_chunk = (\<lambda>r. ((OK, case fst r of None \<Rightarrow> Chunk_new | Some b \<Rightarrow> snd b), r)),
      dict_filter_cache = (\<lambda>r. [])\<rparr>"

definition example_eval :: "SlotConjunct list \<Rightarrow> Chunk \<Rightarrow> Filter \<Rightarrow> (Status \<times> nat) \<times> Filter" where
  "example_eval ctxs c flt =
     (let col = (case columns c of [] \<Rightarrow> [] | col # cols \<Rightarrow> col);
          flt' = map (\<lambda>e. if fst e \<noteq> 0 \<and> list_all (\<lambda>p. p (snd e)) ctxs then 1 else 0) (zip flt col)
      in ((OK, length (filter (\<lambda>m. m \<noteq> 0) flt')), flt'))"

definition example_cops :: HdfsScannerContext_ops where
  "example_cops =
     \<lparr>append_not_existed_columns_to_chunk = (\<lambda>c n. c),
      append_partition_column_to_chunk = (\<lambda>c n. c),
      eval_conjuncts_into_filter = example_eval\<rparr>"

fun greater_100 :: SlotConjunct where
  "greater_100 (DatumInt a) = (a > 100)"
| "greater_100 d = False"

definition scan_ctx :: HdfsScannerContext where
  "scan_ctx =
     \<lparr>partition_columns = [], partition_values = [], min_max_conjunct_ctxs = [],
      materialized_columns = [], can_use_dict_filter_on_slot = (\<lambda>slot. False),
      conjunct_ctxs_by_slot = [(1, [greater_100])]\<rparr>"

definition lazy_xy :: Chunk where
  "lazy_xy = \<lparr>columns = [[DatumBinary [120], DatumBinary [121]]], slot_id_to_index = [(3, 0)]\<rparr>"

definition row_group_low :: "Chunk \<times> Chunk" where
  "row_group_low = (\<lparr>columns = [[DatumInt 1, DatumInt 2]], slot_id_to_index = [(1, 0)]\<rparr>, lazy_xy)"

definition row_group_mixed :: "Chunk \<times> Chunk" where
  "row_group_mixed = (\<lparr>columns = [[DatumInt 150, DatumInt 7]], slot_id_to_index = [(1, 0)]\<rparr>, lazy_xy)"

definition caller_chunk :: Chunk where
  "caller_chunk = \<lparr>columns = [[], []], slot_id_to_index = [(3, 0), (1, 1)]\<rparr>"

definition example_scanner :: "example_state HdfsOrcScanner" where
  "example_scanner =
     \<lparr>should_skip_file = False, orc_reader = (None, [row_group_low, row_group_mixed]),
      raw_rows_read = 0, chunk_filter = [], dict_filter = [], ck = Chunk_new\<rparr>"

section \<open>Properties of the column builders\<close>

lemma apply_calls_eq:
  "apply_calls dflt calls b =
     b\<lparr>column := column b @ map (call_value dflt) calls,
       null_column := null_column b @ map (\<lambda>c. of_bool (call_is_null c)) calls,
       has_null := has_null b \<or> list_ex call_is_null calls\<rparr>"
proof (induction calls arbitrary: b)
  case Nil
  show ?case by (simp add: apply_calls_def)
next
  case (Cons c cs)
  have step: "apply_calls dflt (c # cs) b = apply_calls dflt cs (apply_call dflt b c)"
    by (simp add: apply_calls_def)
  show ?case
    unfolding step Cons.IH
    by (cases c)
      (simp_all add: append_value_def append_value_is_null_def append_null_def
        DATUM_NULL_def DATUM_NOT_NULL_def)
qed

lemma of_bool_False_map:
  "\<not> list_ex call_is_null calls \<Longrightarrow>
   map (\<lambda>c. of_bool (call_is_null c)) calls = replicate (length calls) (0::8 word)"
  by (induction calls) auto

text \<open>
  C7. Whatever sequence of \<open>append(value)\<close>, \<open>append(value, is_null)\<close> and
  \<open>append_null()\<close> calls a new builder receives, \<open>build(false)\<close> returns a column with
  one row per call, whose null bitmap is the calls' nullness in order; the column is the
  nullable wrapper of data and null column when some call appended a null, and the bare
  data column otherwise.
\<close>

theorem build_after_calls:
  "column_size (build False (apply_calls dflt calls (ColumnBuilder_new n))) = length calls
    \<and> column_nulls (build False (apply_calls dflt calls (ColumnBuilder_new n)))
        = map (\<lambda>c. of_bool (call_is_null c)) calls
    \<and> is_nullable (build False (apply_calls dflt calls (ColumnBuilder_new n)))
        = list_ex call_is_null calls
    \<and> build False (apply_calls dflt calls (ColumnBuilder_new n)) =
        (if list_ex call_is_null calls
         then NullableColumn (map (call_value dflt) calls)
                (map (\<lambda>c. of_bool (call_is_null c)) calls)
         else DataColumn (map (call_value dflt) calls))"
  unfolding apply_calls_eq
  by (simp add: build_def ColumnBuilder_new_def reserve_def of_bool_False_map DATUM_NOT_NULL_def)

theorem build_after_calls_witness:
  "build False (apply_calls (0::int) [Append 5, AppendNull, AppendIsNull 7 False]
      (ColumnBuilder_new 4096)) = NullableColumn [5, 0, 7] [0, 1, 0]
   \<and> build False (apply_calls (0::int) [Append 5, AppendIsNull 7 False]
      (ColumnBuilder_new 4096)) = DataColumn [5, 7]"
  using build_after_calls [of "0::int" "[Append 5, AppendNull, AppendIsNull 7 False]" 4096]
    build_after_calls [of "0::int" "[Append 5, AppendIsNull 7 False]" 4096]
  by simp

lemma apply_call_has_null: "has_null b \<Longrightarrow> has_null (apply_call dflt b c)"
  by (cases c) (simp_all add: append_value_def append_value_is_null_def append_null_def)

lemma apply_op_has_null: "has_null b \<Longrightarrow> has_null (apply_op dflt b x)"
  by (cases x) (simp_all add: reserve_def apply_call_has_null)

lemma apply_ops_has_null: "has_null b \<Longrightarrow> has_null (apply_ops dflt xs b)"
  unfolding apply_ops_def
  by (induction xs arbitrary: b) (simp_all add: apply_op_has_null)

lemma apply_inherited_call_has_null: "has_null b \<Longrightarrow> has_null (apply_inherited_call b c)"
  by (cases c) simp_all

lemma set_null_has_null: "set_null i b = Some b' \<Longrightarrow> has_null b'"
  by (auto simp: set_null_def split: option.splits if_splits)

lemma append_empty_has_null: "append_empty i b = Some b' \<Longrightarrow> has_null b' = has_null b"
  by (auto simp: append_empty_def split: option.splits)

lemma append_complete_has_null: "append_complete i b = Some b' \<Longrightarrow> has_null b' = has_null b"
  by (auto simp: append_complete_def split: option.splits)

lemma append_bytes_has_null: "append_bytes bs i b = Some b' \<Longrightarrow> has_null b' = has_null b"
  by (auto simp: append_bytes_def split: option.splits)


lemma apply_binary_op_has_null:
  assumes "has_null b" and "x \<noteq> SetHasNull False" and "apply_binary_op x b = Some b'"
  shows "has_null b'"
proof (cases x)
  case (Inherited c)
  with assms show ?thesis by (auto simp: apply_inherited_call_has_null)
next
  case Getter
  with assms show ?thesis by simp
next
  case (Resize junk n k)
  with assms show ?thesis by (auto simp: resize_def)
next
  case (SetNull i)
  with assms show ?thesis by (simp add: set_null_has_null)
next
  case (AppendEmpty i)
  with assms show ?thesis by (simp add: append_empty_has_null)
next
  case (AppendBytes bs i)
  with assms show ?thesis by (simp add: append_bytes_has_null)
next
  case (AppendPartial bs)
  with assms show ?thesis by (auto simp: append_partial_def)
next
  case (AppendComplete i)
  with assms show ?thesis by (simp add: append_complete_has_null)
next
  case (Rewind n)
  with assms show ?thesis by (auto simp: rewind_def)
next
  case (SetHasNull v)
  with assms show ?thesis by (auto simp: set_has_null_def)
qed


lemma apply_binary_ops_has_null:
  "has_null b \<Longrightarrow> SetHasNull False \<notin> set xs \<Longrightarrow> apply_binary_ops xs b = Some b' \<Longrightarrow> has_null b'"
proof (induction xs arbitrary: b)
  case Nil
  then show ?case by simp
next
  case (Cons x xs)
  from Cons.prems(3) obtain b1 where b1: "apply_binary_op x b = Some b1"
    and rest: "apply_binary_ops xs b1 = Some b'"
    by (cases "apply_binary_op x b") simp_all
  from Cons.prems(2) have ne: "x \<noteq> SetHasNull False" and nin: "SetHasNull False \<notin> set xs"
    by auto
  have "has_null b1" using Cons.prems(1) ne b1 by (rule apply_binary_op_has_null)
  then show ?case using nin rest by (rule Cons.IH)
qed

text \<open>
  C8, as amended. Once \<open>_has_null\<close> is true it stays true under every operation of
  \<open>ColumnBuilder\<close>, and under every operation of \<open>NullableBinaryColumnBuilder\<close> other
  than \<open>set_has_null(false)\<close>, which overwrites the flag with its argument.
\<close>

theorem has_null_monotone:
  "(has_null b \<longrightarrow> has_null (apply_ops dflt xs b)) \<and>
   (has_null nb \<and> SetHasNull False \<notin> set ys \<and> apply_binary_ops ys nb = Some nb' \<longrightarrow> has_null nb')"
proof (intro conjI impI)
  assume "has_null b"
  then show "has_null (apply_ops dflt xs b)" by (rule apply_ops_has_null)
next
  assume "has_null nb \<and> SetHasNull False \<notin> set ys \<and> apply_binary_ops ys nb = Some nb'"
  then show "has_null nb'" using apply_binary_ops_has_null [of nb ys nb'] by simp
qed


text \<open>
  The flag is not monotone under \<open>set_has_null\<close>: after \<open>set_null(0)\<close> it is true, and
  \<open>set_has_null(false)\<close> clears it.
\<close>

theorem has_null_reset_counterexample:
  "map_option has_null (apply_binary_ops [Resize zero_junk 1 0, SetNull 0] NullableBinaryColumnBuilder_new) = Some True
   \<and> map_option has_null (apply_binary_ops [Resize zero_junk 1 0, SetNull 0, SetHasNull False] NullableBinaryColumnBuilder_new) = Some False"
  by code_simp

theorem has_null_monotone_witness:
  "has_null (apply_ops (0::int) [OpCall (Append 1), OpReserve 8, OpBuild False] (append_null 0 (ColumnBuilder_new 4)))
   \<and> map_option has_null (apply_binary_ops [Resize zero_junk 2 0, SetNull 0, AppendBytes [1, 2] 1, Rewind 1, SetHasNull True]
        (set_has_null True NullableBinaryColumnBuilder_new)) = Some True"
proof -
  have a: "has_null (append_null (0::int) (ColumnBuilder_new 4))"
    by (simp add: append_null_def)
  have b: "has_null (set_has_null True NullableBinaryColumnBuilder_new)"
    by (simp add: set_has_null_def)
  have c: "SetHasNull False \<notin> set [Resize zero_junk 2 0, SetNull 0, AppendBytes [1, 2] 1, Rewind 1, SetHasNull True]"
    by simp
  have d: "apply_binary_ops [Resize zero_junk 2 0, SetNull 0, AppendBytes [1, 2] 1, Rewind 1, SetHasNull True]
        (set_has_null True NullableBinaryColumnBuilder_new) =
        Some \<lparr>column = \<lparr>bytes = [1], offsets = [0, 0, 2]\<rparr>, null_column = [1, 0], has_null = True\<rparr>"
    by code_simp
  from has_null_monotone [of "append_null (0::int) (ColumnBuilder_new 4)" 0
      "[OpCall (Append 1), OpReserve 8, OpBuild False]"
      "set_has_null True NullableBinaryColumnBuilder_new"
      "[Resize zero_junk 2 0, SetNull 0, AppendBytes [1, 2] 1, Rewind 1, SetHasNull True]"
      "\<lparr>column = \<lparr>bytes = [1], offsets = [0, 0, 2]\<rparr>, null_column = [1, 0], has_null = True\<rparr>"]
    a b c d
  show ?thesis by simp
qed



lemma length_vector_resize: "length (vector_resize n xs) = n"
  by (simp add: vector_resize_def)




lemma foldl_append_partial:
  "foldl (\<lambda>b p. append_partial p b) b ps =
     b\<lparr>column := (column b)\<lparr>bytes := bytes (column b) @ concat ps\<rparr>\<rparr>"
  by (induction ps arbitrary: b) (simp_all add: append_partial_def)

lemma fill_row_in_range:
  assumes "i + 1 < length (offsets (column b))" and "i < length (null_column b)"
  shows "\<exists>b'. fill_row f i b = Some b'
    \<and> bytes (column b') = bytes (column b) @ fill_bytes f
    \<and> offsets (column b') = (offsets (column b))[i + 1 := length (bytes (column b) @ fill_bytes f)]
    \<and> length (null_column b') = length (null_column b)"
  using assms
  by (cases f)
    (simp_all add: set_null_def set_offset_def append_empty_def append_bytes_def
      append_complete_def foldl_append_partial)

lemma take_Suc_update:
  "i + 1 < length xs \<Longrightarrow> take (i + 2) (xs[i + 1 := m]) = take (i + 1) xs @ [m]"
proof -
  assume a: "i + 1 < length xs"
  have "take (Suc (i + 1)) (xs[i + 1 := m]) = take (i + 1) (xs[i + 1 := m]) @ [xs[i + 1 := m] ! (i + 1)]"
    using a by (intro take_Suc_conv_app_nth) simp
  then show ?thesis using a by simp
qed

lemma last_list_update:
  "length xs = i + 2 \<Longrightarrow> last (xs[i + 1 := m]) = m"
proof -
  assume l: "length xs = i + 2"
  then have ne: "xs[i + 1 := m] \<noteq> []" by auto
  have "last (xs[i + 1 := m]) = xs[i + 1 := m] ! (length (xs[i + 1 := m]) - 1)"
    using ne by (rule last_conv_nth)
  then show ?thesis using l by simp
qed

lemma sorted_take_le_nth:
  "sorted (take (i + 1) xs) \<Longrightarrow> i < length xs \<Longrightarrow> x \<in> set (take (i + 1) xs) \<Longrightarrow> x \<le> xs ! i"
proof -
  assume s: "sorted (take (i + 1) xs)" and i: "i < length xs" and x: "x \<in> set (take (i + 1) xs)"
  from x obtain j where j: "j < length (take (i + 1) xs)" and xj: "take (i + 1) xs ! j = x"
    by (auto simp: in_set_conv_nth)
  from i have len: "length (take (i + 1) xs) = i + 1" by simp
  have "take (i + 1) xs ! j \<le> take (i + 1) xs ! i"
    using s j len by (intro sorted_nth_mono) simp_all
  then show ?thesis using xj by simp
qed

lemma fill_rows_inv:
  assumes "i + length fs + 1 = length (offsets (column b))"
    and "i + length fs \<le> length (null_column b)"
    and "sorted (take (i + 1) (offsets (column b)))"
    and "offsets (column b) ! i \<le> length (bytes (column b))"
  shows "\<exists>b'. fill_rows fs i b = Some b'
    \<and> length (offsets (column b')) = length (offsets (column b))
    \<and> sorted (offsets (column b'))
    \<and> take (i + 1) (offsets (column b')) = take (i + 1) (offsets (column b))
    \<and> (fs \<noteq> [] \<longrightarrow> last (offsets (column b')) = length (bytes (column b')))
    \<and> (fs = [] \<longrightarrow> b' = b)"
  using assms
proof (induction fs arbitrary: i b)
  case Nil
  then show ?case by simp
next
  case (Cons f fs)
  let ?offs = "offsets (column b)"
  let ?m = "length (bytes (column b) @ fill_bytes f)"
  have r1: "i + 1 < length ?offs" and r2: "i < length (null_column b)"
    using Cons.prems(1,2) by simp_all
  from fill_row_in_range [OF r1 r2, of f] obtain b1 where
    b1: "fill_row f i b = Some b1"
    and by1: "bytes (column b1) = bytes (column b) @ fill_bytes f"
    and of1: "offsets (column b1) = ?offs[i + 1 := ?m]"
    and nl1: "length (null_column b1) = length (null_column b)"
    by blast
  have le_m: "?offs ! i \<le> ?m" using Cons.prems(4) by simp
  have tk: "take (i + 2) (offsets (column b1)) = take (i + 1) ?offs @ [?m]"
    unfolding of1 using r1 by (rule take_Suc_update)
  have "\<forall>x\<in>set (take (i + 1) ?offs). x \<le> ?m"
  proof
    fix x assume "x \<in> set (take (i + 1) ?offs)"
    with Cons.prems(3) r1 have "x \<le> ?offs ! i" by (intro sorted_take_le_nth) simp_all
    with le_m show "x \<le> ?m" by simp
  qed
  with Cons.prems(3) have s1: "sorted (take ((i + 1) + 1) (offsets (column b1)))"
    using tk by (simp add: sorted_append)
  have p1: "(i + 1) + length fs + 1 = length (offsets (column b1))"
    using Cons.prems(1) of1 by simp
  have p2: "(i + 1) + length fs \<le> length (null_column b1)"
    using Cons.prems(2) nl1 by simp
  have p4: "offsets (column b1) ! (i + 1) \<le> length (bytes (column b1))"
    using of1 by1 r1 by simp
  from Cons.IH [OF p1 p2 s1 p4] obtain b' where
    run: "fill_rows fs (i + 1) b1 = Some b'"
    and len: "length (offsets (column b')) = length (offsets (column b1))"
    and srt: "sorted (offsets (column b'))"
    and tke: "take (i + 1 + 1) (offsets (column b')) = take (i + 1 + 1) (offsets (column b1))"
    and lst: "fs \<noteq> [] \<longrightarrow> last (offsets (column b')) = length (bytes (column b'))"
    and emp: "fs = [] \<longrightarrow> b' = b1"
    by blast
  have tk1: "take (i + 1) (offsets (column b')) = take (i + 1) ?offs"
  proof -
    have "take (i + 1) (offsets (column b')) = take (i + 1) (take (i + 1 + 1) (offsets (column b')))"
      by simp
    also have "\<dots> = take (i + 1) (take (i + 1) ?offs @ [?m])"
      using tke tk by simp
    also have "\<dots> = take (i + 1) ?offs" using r1 by simp
    finally show ?thesis .
  qed
  have last': "last (offsets (column b')) = length (bytes (column b'))"
  proof (cases "fs = []")
    case True
    with emp have e: "b' = b1" by simp
    from True Cons.prems(1) have l: "length ?offs = i + 2" by simp
    have "last (?offs[i + 1 := ?m]) = ?m"
      using l by (rule last_list_update)
    then show ?thesis using e of1 by1 by simp
  next
    case False
    with lst show ?thesis by simp
  qed
  show ?case using b1 run len srt tk1 last' of1 by simp
qed


lemma length_make_room: "length (make_room junk n xs) = n"
  by (simp add: make_room_def)

text \<open>
  C9. On a builder whose byte buffer is empty (a new one), or for at least one row,
  \<open>resize(n, k)\<close> followed by one finalisation per row, in row order, runs without an
  index out of range and leaves an offsets array of length \<open>n + 1\<close> that starts with 0,
  is non-decreasing and ends with the length of the byte buffer. This holds whatever the
  uninitialised offsets held.
\<close>

theorem offsets_after_fill:
  assumes "length fs = n" and "bytes (column b) = [] \<or> 0 < n"
  shows "\<exists>b'. fill_rows fs 0 (resize junk n k b) = Some b'
    \<and> length (offsets (column b')) = n + 1
    \<and> offsets (column b') ! 0 = 0
    \<and> sorted (offsets (column b'))
    \<and> last (offsets (column b')) = length (bytes (column b'))"
proof -
  let ?b0 = "resize junk n k b"
  have len0: "length (offsets (column ?b0)) = n + 1"
    by (simp add: resize_def length_make_room)
  have hd0: "offsets (column ?b0) ! 0 = 0"
    by (simp add: resize_def length_make_room)
  have by0: "bytes (column ?b0) = bytes (column b)"
    by (simp add: resize_def)
  have q1: "0 + length fs + 1 = length (offsets (column ?b0))"
    using assms(1) len0 by simp
  have q2: "0 + length fs \<le> length (null_column ?b0)"
    using assms(1) by (simp add: resize_def length_vector_resize)
  have tk0: "take (0 + 1) (offsets (column ?b0)) = [0]"
    using len0 hd0 by (cases "offsets (column ?b0)") simp_all
  have q3: "sorted (take (0 + 1) (offsets (column ?b0)))"
    unfolding tk0 by simp
  have q4: "offsets (column ?b0) ! 0 \<le> length (bytes (column ?b0))"
    using hd0 by simp
  from fill_rows_inv [OF q1 q2 q3 q4] obtain b' where
    run: "fill_rows fs 0 ?b0 = Some b'"
    and len: "length (offsets (column b')) = length (offsets (column ?b0))"
    and srt: "sorted (offsets (column b'))"
    and tke: "take (0 + 1) (offsets (column b')) = take (0 + 1) (offsets (column ?b0))"
    and lst: "fs \<noteq> [] \<longrightarrow> last (offsets (column b')) = length (bytes (column b'))"
    and emp: "fs = [] \<longrightarrow> b' = ?b0"
    by blast
  have hd': "offsets (column b') ! 0 = 0"
  proof -
    have "offsets (column b') ! 0 = take (0 + 1) (offsets (column b')) ! 0" by simp
    also have "\<dots> = 0" unfolding tke tk0 by simp
    finally show ?thesis .
  qed
  have last': "last (offsets (column b')) = length (bytes (column b'))"
  proof (cases "fs = []")
    case True
    with assms have e: "bytes (column b) = []" and n0: "n = 0" by auto
    from True emp have b': "b' = ?b0" by simp
    have "offsets (column ?b0) = [0]" using tk0 len0 n0 by simp
    then show ?thesis using b' by0 e by simp
  next
    case False
    with lst show ?thesis by simp
  qed
  show ?thesis using run len len0 hd' srt last' by simp
qed

theorem offsets_after_fill_witness:
  "fill_rows [FillValue [1, 2], FillNull, FillParts [[3], [4, 5]], FillEmpty] 0
     (resize zero_junk 4 16 NullableBinaryColumnBuilder_new) =
     Some \<lparr>column = \<lparr>bytes = [1, 2, 3, 4, 5], offsets = [0, 2, 2, 5, 5]\<rparr>,
       null_column = [0, 1, 0, 0], has_null = True\<rparr>
   \<and> sorted [0, 2, 2, 5, 5::nat] \<and> last [0, 2, 2, 5, 5::nat] = length [1, 2, 3, 4, 5::8 word]"
proof -
  have r: "fill_rows [FillValue [1, 2], FillNull, FillParts [[3], [4, 5]], FillEmpty] 0
     (resize zero_junk 4 16 NullableBinaryColumnBuilder_new) =
     Some \<lparr>column = \<lparr>bytes = [1, 2, 3, 4, 5], offsets = [0, 2, 2, 5, 5]\<rparr>,
       null_column = [0, 1, 0, 0], has_null = True\<rparr>"
    by code_simp
  have h1: "length [FillValue [1, 2], FillNull, FillParts [[3], [4, 5]], FillEmpty] = 4" by simp
  have h2: "bytes (column NullableBinaryColumnBuilder_new) = [] \<or> 0 < (4::nat)" by simp
  from offsets_after_fill [OF h1 h2, of zero_junk 16] r
  show ?thesis by simp
qed

section \<open>Properties of the file stream\<close>

lemma unat_add_no_wrap:
  fixes a b :: "64 word"
  assumes "unat a + unat b < 2 ^ 64"
  shows "unat (a + b) = unat a + unat b"
proof -
  have "unat a + unat b < 2 ^ LENGTH(64)" using assms by simp
  then show ?thesis by (simp only: unat_add_lem)
qed

lemma unat_of_nat_64: "n < 2 ^ 64 \<Longrightarrow> unat (of_nat n :: 64 word) = n"
  by (simp add: unat_of_nat)

lemma canUseCacheBuffer_iff:
  assumes "unat off + unat len < 2 ^ 64"
    and "unat (cache_offset s) + length (cache_buffer s) < 2 ^ 64"
  shows "canUseCacheBuffer s off len \<longleftrightarrow>
    (cache_buffer s \<noteq> [] \<and> unat (cache_offset s) \<le> unat off
     \<and> unat off + unat len \<le> unat (cache_offset s) + length (cache_buffer s))"
proof -
  have n: "length (cache_buffer s) < 2 ^ 64" using assms(2) by simp
  have u1: "unat (off + len) = unat off + unat len"
    using assms(1) by (rule unat_add_no_wrap)
  have u2: "unat (of_nat (length (cache_buffer s)) :: 64 word) = length (cache_buffer s)"
    using n by (rule unat_of_nat_64)
  have "unat (cache_offset s) + unat (of_nat (length (cache_buffer s)) :: 64 word) < 2 ^ 64"
    using assms(2) u2 by simp
  then have "unat (cache_offset s + of_nat (length (cache_buffer s)))
      = unat (cache_offset s) + unat (of_nat (length (cache_buffer s)) :: 64 word)"
    by (rule unat_add_no_wrap)
  then have u3: "unat (cache_offset s + of_nat (length (cache_buffer s)))
      = unat (cache_offset s) + length (cache_buffer s)"
    using u2 by simp
  show ?thesis
    unfolding canUseCacheBuffer_def word_le_nat_alt u1 u3 by simp
qed


lemma doRead_io_count: "io_count (stats (snd (doRead s buf_is_null len off))) = io_count (stats s) + 1"
  by (simp add: doRead_def Let_def split: option.splits)

lemma doRead_Inr:
  "fst (doRead s buf_is_null len off) = Inr data \<Longrightarrow>
   read_at_fully s off len = Some data \<and> \<not> buf_is_null
   \<and> bytes_read (stats (snd (doRead s buf_is_null len off))) = bytes_read (stats s) + uint len"
  by (simp add: doRead_def Let_def split: option.splits if_splits)

lemma doRead_Inl:
  "fst (doRead s buf_is_null len off) = Inl e \<Longrightarrow>
   bytes_read (stats (snd (doRead s buf_is_null len off))) = bytes_read (stats s)"
  by (simp add: doRead_def Let_def split: option.splits if_splits)

text \<open>
  C6, as amended. For a request and a cache window that do not wrap around \<open>2 ^ 64\<close>:
  if \<open>[offset, offset + length)\<close> lies within the non-empty cache window, \<open>read\<close>
  copies the bytes from the cache and leaves the stream, its statistics included, as it
  was; otherwise \<open>read\<close> is the physical read \<open>doRead\<close>, which adds one to the I/O count
  and, when the read succeeds, the length to the byte count.
\<close>

theorem read_cache_or_physical:
  assumes "unat off + unat len < 2 ^ 64"
    and "unat (cache_offset s) + length (cache_buffer s) < 2 ^ 64"
  shows "(cache_buffer s \<noteq> [] \<and> unat (cache_offset s) \<le> unat off
          \<and> unat off + unat len \<le> unat (cache_offset s) + length (cache_buffer s)
          \<and> (buf_is_null \<longrightarrow> len = 0)
        \<longrightarrow> read s buf_is_null len off =
            (Inr (take (unat len) (drop (unat off - unat (cache_offset s)) (cache_buffer s))), s))
      \<and> (\<not> (cache_buffer s \<noteq> [] \<and> unat (cache_offset s) \<le> unat off
          \<and> unat off + unat len \<le> unat (cache_offset s) + length (cache_buffer s))
        \<longrightarrow> read s buf_is_null len off = doRead s buf_is_null len off
          \<and> io_count (stats (snd (read s buf_is_null len off))) = io_count (stats s) + 1
          \<and> (\<forall>data. fst (read s buf_is_null len off) = Inr data \<longrightarrow>
                read_at_fully s off len = Some data
                \<and> bytes_read (stats (snd (read s buf_is_null len off))) = bytes_read (stats s) + uint len)
          \<and> (\<forall>e. fst (read s buf_is_null len off) = Inl e \<longrightarrow>
                bytes_read (stats (snd (read s buf_is_null len off))) = bytes_read (stats s)))"
proof (intro conjI impI)
  assume c: "cache_buffer s \<noteq> [] \<and> unat (cache_offset s) \<le> unat off
          \<and> unat off + unat len \<le> unat (cache_offset s) + length (cache_buffer s)
          \<and> (buf_is_null \<longrightarrow> len = 0)"
  then have use: "canUseCacheBuffer s off len"
    using canUseCacheBuffer_iff [OF assms] by simp
  from c have le: "cache_offset s \<le> off" by (simp add: word_le_nat_alt)
  have idx: "unat (off - cache_offset s) = unat off - unat (cache_offset s)"
    using le by (rule unat_sub)
  have fits: "\<not> unat (off - cache_offset s) + unat len > length (cache_buffer s)"
    unfolding idx using c by linarith
  show "read s buf_is_null len off =
      (Inr (take (unat len) (drop (unat off - unat (cache_offset s)) (cache_buffer s))), s)"
    using use fits c idx by (simp add: read_def Let_def)
next
  assume n: "\<not> (cache_buffer s \<noteq> [] \<and> unat (cache_offset s) \<le> unat off
          \<and> unat off + unat len \<le> unat (cache_offset s) + length (cache_buffer s))"
  then have nuse: "\<not> canUseCacheBuffer s off len"
    using canUseCacheBuffer_iff [OF assms] by simp
  then have eq: "read s buf_is_null len off = doRead s buf_is_null len off"
    by (simp add: read_def)
  show "read s buf_is_null len off = doRead s buf_is_null len off" by (fact eq)
  show "io_count (stats (snd (read s buf_is_null len off))) = io_count (stats s) + 1"
    unfolding eq by (rule doRead_io_count)
  show "\<forall>data. fst (read s buf_is_null len off) = Inr data \<longrightarrow>
                read_at_fully s off len = Some data
                \<and> bytes_read (stats (snd (read s buf_is_null len off))) = bytes_read (stats s) + uint len"
    unfolding eq using doRead_Inr by blast
  show "\<forall>e. fst (read s buf_is_null len off) = Inl e \<longrightarrow>
                bytes_read (stats (snd (read s buf_is_null len off))) = bytes_read (stats s)"
    unfolding eq using doRead_Inl by blast
qed

text \<open>
  A read served from the cache records nothing: the request for bytes 5 and 6 lies in the
  window, the bytes come back and the I/O count and byte count are what they were.
\<close>

theorem read_cache_hit_counterexample:
  "read example_stream False 2 5 = (Inr [5, 6], example_stream)
   \<and> io_count (stats (snd (read example_stream False 2 5))) = io_count (stats example_stream)
   \<and> bytes_read (stats (snd (read example_stream False 2 5))) = bytes_read (stats example_stream)"
  by (simp add: read_def canUseCacheBuffer_def example_stream_def Let_def)

theorem read_cache_or_physical_witness:
  "read example_stream False 2 5 = (Inr [5, 6], example_stream)
   \<and> read example_stream False 3 7 =
       (Inr [7, 8, 9], example_stream\<lparr>stats := \<lparr>io_count = 2, bytes_read = 7\<rparr>\<rparr>)"
proof -
  have a1: "unat (5::64 word) + unat (2::64 word) < 2 ^ 64" by simp
  have a2: "unat (7::64 word) + unat (3::64 word) < 2 ^ 64" by simp
  have b: "unat (cache_offset example_stream) + length (cache_buffer example_stream) < 2 ^ 64"
    by (simp add: example_stream_def)
  have r: "doRead example_stream False 3 7 =
       (Inr [7, 8, 9], example_stream\<lparr>stats := \<lparr>io_count = 2, bytes_read = 7\<rparr>\<rparr>)"
    by (simp add: doRead_def example_stream_def example_file_def Let_def upt_rec)
  from read_cache_or_physical [OF a1 b, of False] read_cache_or_physical [OF a2 b, of False] r
  show ?thesis by (simp add: example_stream_def)
qed

section \<open>Properties of the stripe filter\<close>

lemma keys_map_insert: "fst ` set (map_insert (k, v) m) = insert k (fst ` set m)"
proof (induction m)
  case Nil
  show ?case by simp
next
  case (Cons a m)
  obtain k' v' where a: "a = (k', v')" by (cases a)
  show ?case unfolding a using Cons.IH by (cases "k < k'"; cases "k = k'") auto
qed

lemma set_map_insert_subset: "set (map_insert (k, v) m) \<subseteq> insert (k, v) (set m)"
proof (induction m)
  case Nil
  show ?case by simp
next
  case (Cons a m)
  obtain k' v' where a: "a = (k', v')" by (cases a)
  show ?case unfolding a using Cons.IH by (cases "k < k'"; cases "k = k'") auto
qed

lemma sorted_map_insert:
  "sorted_wrt (<) (map fst m) \<Longrightarrow> sorted_wrt (<) (map fst (map_insert (k, v) m))"
proof (induction m)
  case Nil
  then show ?case by simp
next
  case (Cons a m)
  obtain k' v' where a: "a = (k', v')" by (cases a)
  show ?case
  proof (cases "k < k'")
    case True
    with Cons.prems a show ?thesis by (auto simp: less_trans)
  next
    case False
    show ?thesis
    proof (cases "k = k'")
      case True
      with Cons.prems a show ?thesis by simp
    next
      case ne: False
      with False have gt: "k' < k" by simp
      have "\<forall>x\<in>fst ` set (map_insert (k, v) m). k' < x"
        using Cons.prems a gt by (auto simp: keys_map_insert)
      then show ?thesis using Cons False ne a by (auto simp: image_iff)
    qed
  qed
qed

lemma upper_bound_Some:
  "sorted_wrt (<) (map fst m) \<Longrightarrow> upper_bound x m = Some (k, v) \<Longrightarrow>
   (k, v) \<in> set m \<and> x < k \<and> (\<forall>k'\<in>fst ` set m. x < k' \<longrightarrow> k \<le> k')"
proof (induction m)
  case Nil
  then show ?case by simp
next
  case (Cons a m)
  obtain k0 v0 where a: "a = (k0, v0)" by (cases a)
  show ?case
  proof (cases "x < k0")
    case True
    with Cons.prems a have e: "k = k0" "v = v0" by simp_all
    have "\<forall>k'\<in>fst ` set m. k0 < k'" using Cons.prems(1) a by auto
    then show ?thesis using e a True by (auto simp: less_imp_le)
  next
    case False
    with Cons.prems a have u: "upper_bound x m = Some (k, v)" by simp
    from Cons.prems(1) have s: "sorted_wrt (<) (map fst m)" by simp
    from Cons.IH [OF s u] show ?thesis using False a by auto
  qed
qed

lemma upper_bound_None:
  "upper_bound x m = None \<Longrightarrow> \<forall>k'\<in>fst ` set m. \<not> x < k'"
proof (induction m)
  case Nil
  show ?case by simp
next
  case (Cons a m)
  obtain k0 v0 where a: "a = (k0, v0)" by (cases a)
  from Cons.prems a have n: "\<not> x < k0" and u: "upper_bound x m = None"
    by (simp_all split: if_splits)
  from Cons.IH [OF u] n show ?case unfolding a by simp
qed


lemma foldl_map_insert_sorted:
  "sorted_wrt (<) (map fst m) \<Longrightarrow>
   sorted_wrt (<) (map fst (foldl (\<lambda>m r. map_insert (g r) m) m rs))"
proof (induction rs arbitrary: m)
  case Nil
  then show ?case by simp
next
  case (Cons r rs)
  obtain k v where g: "g r = (k, v)" by (cases "g r")
  have "sorted_wrt (<) (map fst (map_insert (g r) m))"
    unfolding g using Cons.prems by (rule sorted_map_insert)
  then show ?case using Cons.IH by simp
qed

lemma foldl_map_insert_subset:
  "set (foldl (\<lambda>m r. map_insert (g r) m) m rs) \<subseteq> set m \<union> g ` set rs"
proof (induction rs arbitrary: m)
  case Nil
  show ?case by simp
next
  case (Cons r rs)
  obtain k v where g: "g r = (k, v)" by (cases "g r")
  have "set (map_insert (g r) m) \<subseteq> insert (g r) (set m)"
    unfolding g by (rule set_map_insert_subset)
  with Cons.IH [of "map_insert (g r) m"] show ?case by auto
qed

lemma foldl_map_insert_keys:
  "fst ` set (foldl (\<lambda>m r. map_insert (g r) m) m rs) = fst ` set m \<union> (\<lambda>r. fst (g r)) ` set rs"
proof (induction rs arbitrary: m)
  case Nil
  show ?case by simp
next
  case (Cons r rs)
  obtain k v where g: "g r = (k, v)" by (cases "g r")
  have "fst ` set (map_insert (g r) m) = insert (fst (g r)) (fst ` set m)"
    unfolding g by (simp add: keys_map_insert)
  with Cons.IH [of "map_insert (g r) m"] show ?case by auto
qed

lemma insert_scan_ranges_sorted: "sorted_wrt (<) (map fst (insert_scan_ranges rs))"
  unfolding insert_scan_ranges_def
  using foldl_map_insert_sorted [of "[]" "\<lambda>r. (range_offset r + range_length r, range_offset r)" rs]
  by simp

lemma insert_scan_ranges_entry:
  assumes "(k, v) \<in> set (insert_scan_ranges rs)"
  shows "\<exists>r\<in>set rs. k = range_offset r + range_length r \<and> v = range_offset r"
proof -
  have "set (insert_scan_ranges rs)
      \<subseteq> set [] \<union> (\<lambda>r. (range_offset r + range_length r, range_offset r)) ` set rs"
    unfolding insert_scan_ranges_def
    using foldl_map_insert_subset [of "\<lambda>r. (range_offset r + range_length r, range_offset r)" "[]" rs]
    by simp
  with assms show ?thesis by auto
qed

lemma insert_scan_ranges_key:
  assumes "r \<in> set rs"
  shows "range_offset r + range_length r \<in> fst ` set (insert_scan_ranges rs)"
proof -
  have "fst ` set (insert_scan_ranges rs)
      = fst ` set [] \<union> (\<lambda>r. fst (range_offset r + range_length r, range_offset r)) ` set rs"
    unfolding insert_scan_ranges_def
    using foldl_map_insert_keys [of "\<lambda>r. (range_offset r + range_length r, range_offset r)" "[]" rs]
    by simp
  with assms show ?thesis by auto
qed

lemma ranges_overlap_sym: "ranges_overlap r1 r2 = ranges_overlap r2 r1"
  by (simp add: ranges_overlap_def max.commute min.commute)

lemma non_overlapping_distinct:
  "non_overlapping rs \<Longrightarrow> r \<in> set rs \<Longrightarrow> r' \<in> set rs \<Longrightarrow> r \<noteq> r' \<Longrightarrow> \<not> ranges_overlap r r'"
proof (induction rs)
  case Nil
  then show ?case by simp
next
  case (Cons a rs)
  from Cons.prems(1) have hd: "\<forall>y\<in>set rs. \<not> ranges_overlap a y" and tl: "non_overlapping rs"
    by (simp_all add: list_all_iff)
  consider "r = a" "r' \<in> set rs" | "r' = a" "r \<in> set rs" | "r \<in> set rs" "r' \<in> set rs"
    using Cons.prems(2,3,4) by auto
  then show ?case
  proof cases
    case 1
    with hd show ?thesis by simp
  next
    case 2
    with hd have "\<not> ranges_overlap a r" by simp
    with 2 show ?thesis by (simp add: ranges_overlap_sym)
  next
    case 3
    with Cons.IH tl Cons.prems(4) show ?thesis by simp
  qed
qed

lemma proper_range_end:
  "proper_range r \<Longrightarrow>
   unat (range_offset r + range_length r) = unat (range_offset r) + unat (range_length r)
   \<and> 0 < unat (range_length r)"
proof -
  assume p: "proper_range r"
  then have "unat (range_offset r) + unat (range_length r) < 2 ^ 64"
    by (simp add: proper_range_def)
  then have "unat (range_offset r + range_length r) = unat (range_offset r) + unat (range_length r)"
    by (rule unat_add_no_wrap)
  moreover have "0 < unat (range_length r)"
    using p by (simp add: proper_range_def unat_gt_0)
  ultimately show ?thesis by simp
qed


lemma in_some_scan_range_iff: "in_some_scan_range off rs \<longleftrightarrow> (\<exists>r\<in>set rs. in_scan_range off r)"
  by (simp add: in_some_scan_range_def list_ex_iff)

lemma upper_bound_decides:
  assumes proper: "list_all proper_range rs" and no: "non_overlapping rs"
  shows "(case upper_bound off (insert_scan_ranges rs) of
            None \<Rightarrow> False
          | Some (range_end, range_start) \<Rightarrow> off \<ge> range_start \<and> off < range_end)
         = in_some_scan_range off rs"
proof (cases "upper_bound off (insert_scan_ranges rs)")
  case None
  have "\<not> in_some_scan_range off rs"
  proof
    assume "in_some_scan_range off rs"
    then obtain r where r: "r \<in> set rs" and inr: "in_scan_range off r"
      by (auto simp: in_some_scan_range_iff)
    from proper r have pr: "proper_range r" by (simp add: list_all_iff)
    from proper_range_end [OF pr] inr have "unat off < unat (range_offset r + range_length r)"
      by (simp add: in_scan_range_def)
    then have lt: "off < range_offset r + range_length r" by (simp add: word_less_nat_alt)
    from upper_bound_None [OF None] insert_scan_ranges_key [OF r] lt show False by blast
  qed
  with None show ?thesis by simp
next
  case (Some kv)
  obtain k v where kv: "kv = (k, v)" by (cases kv)
  from Some kv have ub: "upper_bound off (insert_scan_ranges rs) = Some (k, v)" by simp
  from upper_bound_Some [OF insert_scan_ranges_sorted ub]
  have mem: "(k, v) \<in> set (insert_scan_ranges rs)" and lt: "off < k"
    and least: "\<forall>k'\<in>fst ` set (insert_scan_ranges rs). off < k' \<longrightarrow> k \<le> k'"
    by blast+
  from insert_scan_ranges_entry [OF mem] obtain r' where r': "r' \<in> set rs"
    and k: "k = range_offset r' + range_length r'" and v: "v = range_offset r'"
    by blast
  from proper r' have pr': "proper_range r'" by (simp add: list_all_iff)
  note e' = proper_range_end [OF pr']
  show ?thesis
  proof (cases "v \<le> off")
    case True
    have "in_scan_range off r'"
      using True lt e' unfolding k v in_scan_range_def word_le_nat_alt word_less_nat_alt by simp
    with r' have "in_some_scan_range off rs" by (auto simp: in_some_scan_range_iff)
    with ub True lt show ?thesis by simp
  next
    case False
    then have below: "unat off < unat (range_offset r')"
      unfolding v word_le_nat_alt by simp
    have "\<not> in_some_scan_range off rs"
    proof
      assume "in_some_scan_range off rs"
      then obtain r where r: "r \<in> set rs" and inr: "in_scan_range off r"
        by (auto simp: in_some_scan_range_iff)
      from proper r have pr: "proper_range r" by (simp add: list_all_iff)
      note e = proper_range_end [OF pr]
      from e inr have "unat off < unat (range_offset r + range_length r)"
        by (simp add: in_scan_range_def)
      then have "off < range_offset r + range_length r" by (simp add: word_less_nat_alt)
      with least insert_scan_ranges_key [OF r] have "k \<le> range_offset r + range_length r"
        by blast
      then have ends: "unat (range_offset r') + unat (range_length r')
          \<le> unat (range_offset r) + unat (range_length r)"
        unfolding k word_le_nat_alt using e e' by simp
      from inr have start: "unat (range_offset r) \<le> unat off" by (simp add: in_scan_range_def)
      have ne: "r \<noteq> r'" using start below by auto
      have "ranges_overlap r r'"
        unfolding ranges_overlap_def using start below ends e' by simp
      with non_overlapping_distinct [OF no r r' ne] show False by simp
    qed
    with ub False show ?thesis by simp
  qed
qed

text \<open>
  C3, as amended. When the assigned scan ranges are pairwise non-overlapping, none is
  empty and no end offset wraps around \<open>2 ^ 64\<close>, the stripe-opening hook skips the stripe
  if and only if the stripe's byte offset lies in none of the ranges
  \<open>[offset, offset + length)\<close>: the first map entry whose end exceeds the offset, checked
  for its start, decides containment.
\<close>

theorem filterOnOpeningStripe_skips_iff_uncovered:
  assumes "list_all proper_range (scan_ranges scanner_params)"
    and "non_overlapping (scan_ranges scanner_params)"
    and "filter_scan_ranges f = filter_scan_ranges (OrcRowReaderFilter_new scanner_params reader)"
  shows "fst (filterOnOpeningStripe f stripeIndex off)
         = (\<not> in_some_scan_range off (scan_ranges scanner_params))"
proof -
  have m: "filter_scan_ranges f = insert_scan_ranges (scan_ranges scanner_params)"
    using assms(3) by (simp add: OrcRowReaderFilter_new_def)
  have "fst (filterOnOpeningStripe f stripeIndex off)
      = (\<not> (case upper_bound off (insert_scan_ranges (scan_ranges scanner_params)) of
            None \<Rightarrow> False
          | Some (range_end, range_start) \<Rightarrow> off \<ge> range_start \<and> off < range_end))"
    unfolding filterOnOpeningStripe_def m by (simp add: Let_def split: option.splits)
  then show ?thesis
    using upper_bound_decides [OF assms(1,2), of off] by simp
qed


text \<open>
  An empty range overlaps nothing, yet it takes the map key of a range that ends at the
  same offset: offset 2 lies in \<open>[0, 5)\<close> and the stripe is skipped.
\<close>

theorem empty_range_counterexample:
  "non_overlapping empty_range_first
   \<and> in_some_scan_range 2 empty_range_first
   \<and> fst (filterOnOpeningStripe
        (OrcRowReaderFilter_new \<lparr>min_max_tuple_desc = None, scan_ranges = empty_range_first\<rparr>
           example_reader) 0 2)"
  by (simp add: empty_range_first_def ranges_overlap_def in_some_scan_range_def in_scan_range_def
      filterOnOpeningStripe_def OrcRowReaderFilter_new_def insert_scan_ranges_def)

theorem filterOnOpeningStripe_skips_iff_uncovered_witness:
  "\<not> fst (filterOnOpeningStripe
        (OrcRowReaderFilter_new \<lparr>min_max_tuple_desc = None, scan_ranges = example_ranges\<rparr>
           example_reader) 0 12)
   \<and> fst (filterOnOpeningStripe
        (OrcRowReaderFilter_new \<lparr>min_max_tuple_desc = None, scan_ranges = example_ranges\<rparr>
           example_reader) 1 7)"
proof -
  let ?p = "\<lparr>min_max_tuple_desc = None, scan_ranges = example_ranges\<rparr>"
  have a: "list_all proper_range (scan_ranges ?p)"
    by (simp add: example_ranges_def proper_range_def)
  have b: "non_overlapping (scan_ranges ?p)"
    by (simp add: example_ranges_def ranges_overlap_def)
  have c: "filter_scan_ranges (OrcRowReaderFilter_new ?p example_reader)
      = filter_scan_ranges (OrcRowReaderFilter_new ?p example_reader)" by simp
  have d: "in_some_scan_range 12 (scan_ranges ?p)" "\<not> in_some_scan_range 7 (scan_ranges ?p)"
    by (simp_all add: example_ranges_def in_some_scan_range_def in_scan_range_def)
  from filterOnOpeningStripe_skips_iff_uncovered [OF a b c, of 0 12]
    filterOnOpeningStripe_skips_iff_uncovered [OF a b c, of 1 7] d
  show ?thesis by simp
qed

section \<open>Properties of the row-group filter\<close>

lemma some_conjunct_false_iff:
  "some_conjunct_false cs min_row max_row \<longleftrightarrow> (\<exists>c\<in>set cs. c min_row = 0 \<and> c max_row = 0)"
  by (induction cs) auto

text \<open>
  C1, as amended. While a min/max tuple descriptor is present, the row group is skipped if
  and only if both reference rows could be built (every slot of the descriptor resolved
  without an early return) and at least one min/max conjunct evaluates to 0 on the row of
  minima and on the row of maxima.
\<close>

theorem filterOnPickRowGroup_skips_iff:
  "filterOnPickRowGroup scanner_params ctx reader f rowGroupIdx rowIndexes = Some True \<longleftrightarrow>
   (\<exists>slots min_row max_row.
      min_max_tuple_desc scanner_params = Some slots
      \<and> fill_min_max_chunks ctx reader f rowGroupIdx rowIndexes slots = Rows min_row max_row
      \<and> (\<exists>c\<in>set (min_max_conjunct_ctxs ctx). c min_row = 0 \<and> c max_row = 0))"
  by (auto simp: filterOnPickRowGroup_def filterMinMax_def some_conjunct_false_iff
      split: option.splits reference_rows.splits)

text \<open>
  With the conjuncts \<open>a > 100\<close> and \<open>a < 1000\<close> and the statistics \<open>[1, 50]\<close> the row group
  is skipped, although the second conjunct holds on both reference rows.
\<close>

theorem one_false_conjunct_counterexample:
  "filterOnPickRowGroup example_params example_ctx example_reader
      (OrcRowReaderFilter_new example_params example_reader) 0 example_row_indexes = Some True
   \<and> fill_min_max_chunks example_ctx example_reader
      (OrcRowReaderFilter_new example_params example_reader) 0 example_row_indexes [slot_a]
      = Rows [DatumInt 1] [DatumInt 50]
   \<and> \<not> every_conjunct_false (min_max_conjunct_ctxs example_ctx) [DatumInt 1] [DatumInt 50]"
  by (simp add: filterOnPickRowGroup_def filterMinMax_def slot_min_max_def example_params_def
      example_ctx_def example_reader_def example_row_indexes_def slot_a_def
      OrcRowReaderFilter_new_def every_conjunct_false_def)

theorem filterOnPickRowGroup_skips_iff_witness:
  "filterOnPickRowGroup example_params example_ctx example_reader
      (OrcRowReaderFilter_new example_params example_reader) 0 example_row_indexes = Some True
   \<and> filterOnPickRowGroup example_params example_ctx example_reader
      (OrcRowReaderFilter_new example_params example_reader) 1 example_row_indexes = Some False"
proof -
  let ?f = "OrcRowReaderFilter_new example_params example_reader"
  have d: "min_max_tuple_desc example_params = Some [slot_a]"
    by (simp add: example_params_def)
  have r0: "fill_min_max_chunks example_ctx example_reader ?f 0 example_row_indexes [slot_a]
      = Rows [DatumInt 1] [DatumInt 50]"
    by (simp add: slot_min_max_def example_reader_def example_row_indexes_def slot_a_def
        OrcRowReaderFilter_new_def)
  have c0: "\<exists>c\<in>set (min_max_conjunct_ctxs example_ctx). c [DatumInt 1] = 0 \<and> c [DatumInt 50] = 0"
    by (simp add: example_ctx_def)
  have one: "filterOnPickRowGroup example_params example_ctx example_reader ?f 0 example_row_indexes
      = Some True"
    using filterOnPickRowGroup_skips_iff [of example_params example_ctx example_reader ?f 0
        example_row_indexes] d r0 c0 by blast
  have two: "filterOnPickRowGroup example_params example_ctx example_reader ?f 1 example_row_indexes
      = Some False"
    by (simp add: filterOnPickRowGroup_def filterMinMax_def slot_min_max_def example_params_def
      example_ctx_def example_reader_def example_row_indexes_def slot_a_def
      OrcRowReaderFilter_new_def)
  from one two show ?thesis by simp
qed

section \<open>Properties of the dictionary filter\<close>

lemma remove_trailing_spaces_le: "remove_trailing_spaces s n \<le> n"
  by (induction n) auto

lemma concat_slice:
  assumes "i < n"
  shows "take (length (concat (map f [0..<Suc i])) - length (concat (map f [0..<i])))
           (drop (length (concat (map f [0..<i]))) (concat (map f [0..<n]))) = f i"
proof -
  have "[0..<n] = [0..<i] @ [i..<n]"
    using upt_add_eq_append [of 0 i "n - i"] assms by simp
  moreover have "[i..<n] = i # [Suc i..<n]"
    using assms by (rule upt_conv_Cons)
  ultimately have split: "[0..<n] = [0..<i] @ i # [Suc i..<n]" by simp
  have "concat (map f [0..<n]) = concat (map f [0..<i]) @ f i @ concat (map f [Suc i..<n])"
    by (subst split) simp
  then show ?thesis by simp
qed

lemma sorted_nth_nonneg:
  fixes xs :: "int list"
  assumes "sorted xs" and "0 \<le> hd xs" and "i < length xs"
  shows "0 \<le> xs ! i"
proof -
  from assms(3) have ne: "xs \<noteq> []" by auto
  have "xs ! 0 \<le> xs ! i" using assms(1,3) by (intro sorted_nth_mono) simp_all
  moreover have "hd xs = xs ! 0" using ne by (simp add: hd_conv_nth)
  ultimately show ?thesis using assms(2) by simp
qed

lemma sorted_nth_le_last:
  fixes xs :: "int list"
  assumes "sorted xs" and "i < length xs"
  shows "xs ! i \<le> last xs"
proof -
  from assms(2) have ne: "xs \<noteq> []" by auto
  have "xs ! i \<le> xs ! (length xs - 1)" using assms by (intro sorted_nth_mono) simp_all
  then show ?thesis using ne by (simp add: last_conv_nth)
qed

text \<open>In a dictionary as ORC guarantees, value \<open>i\<close> lies within the blob.\<close>

lemma dictionary_ok_value_fits:
  assumes ok: "dictionary_ok dict" and i: "i + 1 < length (dictionaryOffset dict)"
  shows "0 \<le> dictionaryOffset dict ! i"
    and "dictionaryOffset dict ! i \<le> dictionaryOffset dict ! (i + 1)"
    and "nat (dictionaryOffset dict ! (i + 1) - dictionaryOffset dict ! i)
         \<le> length (drop (nat (dictionaryOffset dict ! i)) (dictionaryBlob dict))"
proof -
  let ?o = "dictionaryOffset dict"
  from ok have s: "sorted ?o" and h: "0 \<le> hd ?o" and l: "last ?o \<le> int (length (dictionaryBlob dict))"
    by (simp_all add: dictionary_ok_def)
  from i have i': "i < length ?o" by simp
  show a: "0 \<le> ?o ! i" using s h i' by (rule sorted_nth_nonneg)
  show b: "?o ! i \<le> ?o ! (i + 1)" using s i by (intro sorted_nth_mono) simp_all
  have "?o ! (i + 1) \<le> last ?o" using s i by (rule sorted_nth_le_last)
  with l have "?o ! (i + 1) \<le> int (length (dictionaryBlob dict))" by simp
  with a b show "nat (?o ! (i + 1) - ?o ! i) \<le> length (drop (nat (?o ! i)) (dictionaryBlob dict))"
    by simp
qed


lemma char_value_length:
  assumes ok: "dictionary_ok dict" and i: "i + 1 < length (dictionaryOffset dict)"
  shows "length (dictionary_value TYPE_CHAR dict i)
    = remove_trailing_spaces (drop (nat (dictionaryOffset dict ! i)) (dictionaryBlob dict))
        (nat (dictionaryOffset dict ! (i + 1) - dictionaryOffset dict ! i))"
proof -
  let ?s = "drop (nat (dictionaryOffset dict ! i)) (dictionaryBlob dict)"
  let ?n = "nat (dictionaryOffset dict ! (i + 1) - dictionaryOffset dict ! i)"
  have "remove_trailing_spaces ?s ?n \<le> ?n" by (rule remove_trailing_spaces_le)
  also have "?n \<le> length ?s" using ok i by (rule dictionary_ok_value_fits(3))
  finally show ?thesis by (simp add: dictionary_value_def Let_def min_def)
qed

lemma char_dict_loop_result:
  assumes "dictionary_ok dict"
    and "i + n < length (dictionaryOffset dict)"
    and "i + n < length (offsets c)"
    and "bytes c = concat (map (dictionary_value TYPE_CHAR dict) [0..<i])"
  shows "char_dict_loop (dictionaryBlob dict) (dictionaryOffset dict) i n c (length (bytes c)) =
     (c\<lparr>bytes := concat (map (dictionary_value TYPE_CHAR dict) [0..<i + n]),
        offsets := map (\<lambda>j. if i \<le> j \<and> j < i + n
                              then length (concat (map (dictionary_value TYPE_CHAR dict) [0..<j]))
                              else offsets c ! j) [0..<length (offsets c)]\<rparr>,
      length (concat (map (dictionary_value TYPE_CHAR dict) [0..<i + n])))"
  using assms(2,3,4)
proof (induction n arbitrary: i c)
  case 0
  have "(\<lambda>j. if i \<le> j \<and> j < i + 0
                              then length (concat (map (dictionary_value TYPE_CHAR dict) [0..<j]))
                              else offsets c ! j) = (\<lambda>j. offsets c ! j)"
    by auto
  then have m: "map (\<lambda>j. if i \<le> j \<and> j < i + 0
                              then length (concat (map (dictionary_value TYPE_CHAR dict) [0..<j]))
                              else offsets c ! j) [0..<length (offsets c)] = offsets c"
    by (simp only: map_nth)
  have "c\<lparr>bytes := bytes c, offsets := offsets c\<rparr> = c" by simp
  then show ?case unfolding m using "0.prems"(3) by simp
next
  case (Suc n)
  let ?sv = "dictionary_value TYPE_CHAR dict"
  let ?s = "drop (nat (dictionaryOffset dict ! i)) (dictionaryBlob dict)"
  let ?old = "nat (dictionaryOffset dict ! (i + 1) - dictionaryOffset dict ! i)"
  let ?new = "remove_trailing_spaces ?s ?old"
  let ?c' = "c\<lparr>bytes := bytes c @ take ?new ?s, offsets := (offsets c)[i := length (bytes c)]\<rparr>"
  have i1: "i + 1 < length (dictionaryOffset dict)" using Suc.prems(1) by simp
  have sv: "take ?new ?s = ?sv i" by (simp add: dictionary_value_def Let_def)
  have len: "length (?sv i) = ?new" using assms(1) i1 by (rule char_value_length)
  have total: "length (bytes c) + ?new = length (bytes ?c')" using sv len by simp
  have p1: "(i + 1) + n < length (dictionaryOffset dict)" using Suc.prems(1) by simp
  have p2: "(i + 1) + n < length (offsets ?c')" using Suc.prems(2) by simp
  have p3: "bytes ?c' = concat (map ?sv [0..<i + 1])" using Suc.prems(3) sv by simp
  have step: "char_dict_loop (dictionaryBlob dict) (dictionaryOffset dict) i (Suc n) c (length (bytes c))
      = char_dict_loop (dictionaryBlob dict) (dictionaryOffset dict) (i + 1) n ?c' (length (bytes ?c'))"
    using total by (simp add: Let_def)
  have offs: "map (\<lambda>j. if i + 1 \<le> j \<and> j < i + 1 + n
                              then length (concat (map ?sv [0..<j]))
                              else offsets ?c' ! j) [0..<length (offsets ?c')]
      = map (\<lambda>j. if i \<le> j \<and> j < i + Suc n
                              then length (concat (map ?sv [0..<j]))
                              else offsets c ! j) [0..<length (offsets c)]"
  proof (rule map_cong)
    show "[0..<length (offsets ?c')] = [0..<length (offsets c)]" by simp
  next
    fix j assume "j \<in> set [0..<length (offsets c)]"
    then have j: "j < length (offsets c)" by simp
    show "(if i + 1 \<le> j \<and> j < i + 1 + n then length (concat (map ?sv [0..<j])) else offsets ?c' ! j)
        = (if i \<le> j \<and> j < i + Suc n then length (concat (map ?sv [0..<j])) else offsets c ! j)"
    proof (cases "j = i")
      case True
      then show ?thesis using j Suc.prems(3) by simp
    next
      case False
      then show ?thesis by auto
    qed
  qed
  show ?case
    unfolding step Suc.IH [OF p1 p2 p3] offs by simp
qed


lemma nullable_rows_dict:
  "nullable_rows \<lparr>data_column = d, nulls = replicate n 0 @ [1]\<rparr>
     = map (\<lambda>i. DatumBinary (binary_row d i)) [0..<n] @ [DatumNull]"
proof -
  have a: "map (\<lambda>i. if (replicate n 0 @ [1 :: 8 word]) ! i \<noteq> 0 then DatumNull
                    else DatumBinary (binary_row d i)) [0..<n]
      = map (\<lambda>i. DatumBinary (binary_row d i)) [0..<n]"
    by (rule map_cong) (simp_all add: nth_append)
  have b: "(replicate n 0 @ [1 :: 8 word]) ! n \<noteq> 0" by (simp add: nth_append)
  have "nullable_rows \<lparr>data_column = d, nulls = replicate n 0 @ [1]\<rparr>
      = map (\<lambda>i. if (replicate n 0 @ [1 :: 8 word]) ! i \<noteq> 0 then DatumNull
                    else DatumBinary (binary_row d i)) ([0..<n] @ [n])"
    by (simp add: nullable_rows_def)
  also have "\<dots> = map (\<lambda>i. DatumBinary (binary_row d i)) [0..<n] @ [DatumNull]"
    unfolding map_append a using b by simp
  finally show ?thesis .
qed

lemma varchar_rows:
  assumes ok: "dictionary_ok dict" and i: "i + 1 < length (dictionaryOffset dict)"
    and t: "t \<noteq> TYPE_CHAR"
  shows "binary_row (BinaryColumn_append_default
            (c0\<lparr>bytes := dictionaryBlob dict, offsets := map nat (dictionaryOffset dict)\<rparr>)) i
         = dictionary_value t dict i"
proof -
  let ?o = "dictionaryOffset dict"
  have n0: "0 \<le> ?o ! i" and le: "?o ! i \<le> ?o ! (i + 1)"
    using ok i by (rule dictionary_ok_value_fits)+
  have d: "nat (?o ! (i + 1)) - nat (?o ! i) = nat (?o ! (i + 1) - ?o ! i)"
    using n0 le by simp
  have a: "(map nat ?o @ [length (dictionaryBlob dict)]) ! (i + 1) = nat (?o ! (i + 1))"
    using i by (simp add: nth_append)
  have b: "(map nat ?o @ [length (dictionaryBlob dict)]) ! i = nat (?o ! i)"
    using i by (simp add: nth_append)
  show ?thesis
    unfolding binary_row_def BinaryColumn_append_default_def dictionary_value_def
    using a b d t by (simp add: Let_def)
qed

lemma char_rows:
  assumes ok: "dictionary_ok dict" and i: "i + 1 < length (dictionaryOffset dict)"
    and len: "length (offsets c0) = length (dictionaryOffset dict)" and emp: "bytes c0 = []"
  shows "binary_row (BinaryColumn_append_default
            (case char_dict_loop (dictionaryBlob dict) (dictionaryOffset dict) 0
                    (length (dictionaryOffset dict) - 1) c0 0 of
               (c, total_size) \<Rightarrow>
                 c\<lparr>offsets := (offsets c)[length (dictionaryOffset dict) - 1 := total_size]\<rparr>)) i
         = dictionary_value TYPE_CHAR dict i"
proof -
  let ?sv = "dictionary_value TYPE_CHAR dict"
  let ?ds = "length (dictionaryOffset dict) - 1"
  let ?psum = "\<lambda>j. length (concat (map ?sv [0..<j]))"
  have ds: "i < ?ds" "?ds < length (offsets c0)" "?ds + 1 = length (offsets c0)"
    using i len by simp_all
  have q1: "0 + ?ds < length (dictionaryOffset dict)" using i by simp
  have q2: "0 + ?ds < length (offsets c0)" using ds by simp
  have q3: "bytes c0 = concat (map ?sv [0..<0])" using emp by simp
  have loop: "char_dict_loop (dictionaryBlob dict) (dictionaryOffset dict) 0 ?ds c0 0 =
     (c0\<lparr>bytes := concat (map ?sv [0..<?ds]),
        offsets := map (\<lambda>j. if 0 \<le> j \<and> j < 0 + ?ds then ?psum j else offsets c0 ! j)
           [0..<length (offsets c0)]\<rparr>, ?psum ?ds)"
    using char_dict_loop_result [OF ok q1 q2 q3] emp by simp
  let ?O = "(map (\<lambda>j. if 0 \<le> j \<and> j < 0 + ?ds then ?psum j else offsets c0 ! j)
           [0..<length (offsets c0)])[?ds := ?psum ?ds] @ [?psum ?ds]"
  have Oi: "?O ! i = ?psum i"
    using ds by (simp add: nth_append)
  have Oi1: "?O ! (i + 1) = ?psum (i + 1)"
  proof (cases "i + 1 = ?ds")
    case True
    then show ?thesis using ds by (simp add: nth_append)
  next
    case False
    with ds have "i + 1 < ?ds" by simp
    then show ?thesis using ds by (simp add: nth_append)
  qed
  have "binary_row (BinaryColumn_append_default
            (case char_dict_loop (dictionaryBlob dict) (dictionaryOffset dict) 0 ?ds c0 0 of
               (c, total_size) \<Rightarrow> c\<lparr>offsets := (offsets c)[?ds := total_size]\<rparr>)) i
      = take (?O ! (i + 1) - ?O ! i) (drop (?O ! i) (concat (map ?sv [0..<?ds])))"
    unfolding loop by (simp add: binary_row_def BinaryColumn_append_default_def)
  also have "\<dots> = take (?psum (Suc i) - ?psum i) (drop (?psum i) (concat (map ?sv [0..<?ds])))"
    unfolding Oi Oi1 by simp
  also have "\<dots> = ?sv i" using ds(1) by (rule concat_slice)
  finally show ?thesis .
qed

text \<open>
  The column the filter builds from a dictionary as ORC guarantees holds the dictionary's
  values in order, trimmed for \<open>TYPE_CHAR\<close>, and one trailing null.
\<close>

lemma dict_value_column_rows:
  assumes ok: "dictionary_ok dict"
  shows "map_option nullable_rows (dict_value_column slot dict)
         = Some (dictionary_rows (slot_type slot) dict)"
proof -
  let ?ds = "length (dictionaryOffset dict) - 1"
  let ?c0 = "BinaryColumn_new\<lparr>offsets := vector_resize (length (dictionaryOffset dict)) (offsets BinaryColumn_new)\<rparr>"
  from ok have ne: "dictionaryOffset dict \<noteq> []" by (simp add: dictionary_ok_def)
  have len0: "length (offsets ?c0) = length (dictionaryOffset dict)"
    by (simp add: length_vector_resize)
  have emp0: "bytes ?c0 = []" by (simp add: BinaryColumn_new_def)
  show ?thesis
  proof (cases "slot_type slot = TYPE_CHAR")
    case True
    have "map (\<lambda>i. DatumBinary (binary_row (BinaryColumn_append_default
            (case char_dict_loop (dictionaryBlob dict) (dictionaryOffset dict) 0 ?ds ?c0 0 of
               (c, total_size) \<Rightarrow> c\<lparr>offsets := (offsets c)[?ds := total_size]\<rparr>)) i)) [0..<?ds]
        = map (\<lambda>i. DatumBinary (dictionary_value TYPE_CHAR dict i)) [0..<?ds]"
    proof (rule map_cong)
      fix i assume "i \<in> set [0..<?ds]"
      then have "i + 1 < length (dictionaryOffset dict)" by simp
      then show "DatumBinary (binary_row (BinaryColumn_append_default
            (case char_dict_loop (dictionaryBlob dict) (dictionaryOffset dict) 0 ?ds ?c0 0 of
               (c, total_size) \<Rightarrow> c\<lparr>offsets := (offsets c)[?ds := total_size]\<rparr>)) i)
          = DatumBinary (dictionary_value TYPE_CHAR dict i)"
        using char_rows [OF ok _ len0 emp0] by simp
    qed simp
    then show ?thesis
      using ok True by (simp add: dict_value_column_def Let_def nullable_rows_dict dictionary_rows_def)
  next
    case False
    have c1: "?c0\<lparr>bytes := bytes ?c0 @ dictionaryBlob dict, offsets := map nat (dictionaryOffset dict)\<rparr>
        = ?c0\<lparr>bytes := dictionaryBlob dict, offsets := map nat (dictionaryOffset dict)\<rparr>"
      using emp0 by simp
    have "map (\<lambda>i. DatumBinary (binary_row (BinaryColumn_append_default
            (?c0\<lparr>bytes := dictionaryBlob dict, offsets := map nat (dictionaryOffset dict)\<rparr>)) i)) [0..<?ds]
        = map (\<lambda>i. DatumBinary (dictionary_value (slot_type slot) dict i)) [0..<?ds]"
    proof (rule map_cong)
      fix i assume "i \<in> set [0..<?ds]"
      then have "i + 1 < length (dictionaryOffset dict)" by simp
      then show "DatumBinary (binary_row (BinaryColumn_append_default
            (?c0\<lparr>bytes := dictionaryBlob dict, offsets := map nat (dictionaryOffset dict)\<rparr>)) i)
          = DatumBinary (dictionary_value (slot_type slot) dict i)"
        using varchar_rows [OF ok _ False] by simp
    qed simp
    then show ?thesis
      using ok False unfolding dict_value_column_def Let_def c1
      by (simp add: nullable_rows_dict dictionary_rows_def)
  qed
qed


lemma dictionary_rows_nonempty: "dictionary_rows t dict \<noteq> []"
  by (simp add: dictionary_rows_def)

lemma eval_conjuncts_no_rows:
  assumes "rows \<noteq> []"
  shows "(length (fst (eval_conjuncts ctxs rows fp)) = 0)
         = list_all (\<lambda>row. \<not> list_all (\<lambda>c. c row) ctxs) rows"
proof (cases "ctxs = []")
  case True
  from assms obtain r rs where "rows = r # rs" by (cases rows) auto
  with True show ?thesis by (simp add: eval_conjuncts_def)
next
  case False
  then show ?thesis by (simp add: eval_conjuncts_def filter_empty_conv list_all_iff)
qed

lemma dict_filter_loop_result:
  assumes "\<forall>p\<in>set ps. slot_qualifies reader sdicts p \<longrightarrow>
      (\<exists>dict. map_of sdicts (snd p) = Some dict \<and> dictionary_ok dict)
      \<and> map_of (conjunct_ctxs_by_slot ctx) (slot_id (fst p)) \<noteq> None"
  shows "\<exists>f'. dict_filter_loop ctx reader sdicts ps f =
      Some (list_ex (\<lambda>p. slot_qualifies reader sdicts p \<and> slot_rejects_all ctx sdicts p) ps, f')"
  using assms
proof (induction ps arbitrary: f)
  case Nil
  show ?case by simp
next
  case (Cons p ps)
  obtain slot column_index where p: "p = (slot, column_index)" by (cases p)
  have rest: "\<And>g. \<exists>f'. dict_filter_loop ctx reader sdicts ps g =
      Some (list_ex (\<lambda>p. slot_qualifies reader sdicts p \<and> slot_rejects_all ctx sdicts p) ps, f')"
    using Cons.IH Cons.prems by simp
  show ?case
  proof (cases "slot_qualifies reader sdicts p")
    case False
    then have skip: "dict_filter_loop ctx reader sdicts (p # ps) f = dict_filter_loop ctx reader sdicts ps f"
      unfolding p by (auto simp: slot_qualifies_def split: option.splits)
    show ?thesis unfolding skip using rest [of f] False by simp
  next
    case True
    with Cons.prems obtain dict ctxs where d: "map_of sdicts column_index = Some dict"
      and ok: "dictionary_ok dict"
      and c: "map_of (conjunct_ctxs_by_slot ctx) (slot_id slot) = Some ctxs"
      unfolding p by auto
    from True d have sz: "\<not> length (dictionaryOffset dict) > chunk_size reader"
      unfolding p by (simp add: slot_qualifies_def)
    from dict_value_column_rows [OF ok, of slot] obtain col where
      col: "dict_value_column slot dict = Some col"
      and rows: "nullable_rows col = dictionary_rows (slot_type slot) dict"
      by (cases "dict_value_column slot dict") auto
    obtain kept flt where ev: "eval_conjuncts ctxs (nullable_rows col) None = (kept, flt)"
      by (cases "eval_conjuncts ctxs (nullable_rows col) None")
    have "(length (fst (eval_conjuncts ctxs (nullable_rows col) None)) = 0)
        = list_all (\<lambda>row. \<not> list_all (\<lambda>c. c row) ctxs) (nullable_rows col)"
      unfolding rows by (rule eval_conjuncts_no_rows) (rule dictionary_rows_nonempty)
    then have kept0: "(length kept = 0) = slot_rejects_all ctx sdicts p"
      unfolding ev p using d c rows by (simp add: slot_rejects_all_def)
    let ?f' = "(if can_do_filter_on_orc_cvb f
                then f\<lparr>dict_filter_eval_cache := cache_put (slot_id slot) flt (dict_filter_eval_cache f)\<rparr>
                else f)"
    show ?thesis
    proof (cases "length kept = 0")
      case z: True
      have "dict_filter_loop ctx reader sdicts (p # ps) f = Some (True, ?f'\<lparr>dict_filter_eval_cache := []\<rparr>)"
        unfolding p using d sz col c ev z by (simp add: Let_def)
      then show ?thesis using True kept0 z by simp
    next
      case nz: False
      have "dict_filter_loop ctx reader sdicts (p # ps) f = dict_filter_loop ctx reader sdicts ps ?f'"
        unfolding p using d sz col c ev nz by (simp add: Let_def)
      then show ?thesis using rest [of ?f'] kept0 nz by simp
    qed
  qed
qed


text \<open>
  C2, as amended. When the dictionaries of the qualifying slots are as ORC guarantees and
  each such slot has conjuncts, the hook returns, and it skips the stripe if and only if
  at least one qualifying slot's conjuncts reject every row of that slot's dictionary
  chunk: every dictionary value and the trailing null.
\<close>

theorem filterOnPickStringDictionary_skips_iff:
  assumes "\<forall>p\<in>set (dict_filter_slots ctx reader f). slot_qualifies reader sdicts p \<longrightarrow>
      (\<exists>dict. map_of sdicts (snd p) = Some dict \<and> dictionary_ok dict)
      \<and> map_of (conjunct_ctxs_by_slot ctx) (slot_id (fst p)) \<noteq> None"
  shows "\<exists>f'. filterOnPickStringDictionary ctx reader f sdicts =
      Some (list_ex (\<lambda>p. slot_qualifies reader sdicts p \<and> slot_rejects_all ctx sdicts p)
              (dict_filter_slots ctx reader f), f')"
proof (cases "sdicts = []")
  case True
  then have "\<not> list_ex (\<lambda>p. slot_qualifies reader sdicts p \<and> slot_rejects_all ctx sdicts p)
              (dict_filter_slots ctx reader f)"
    by (simp add: list_ex_iff slot_qualifies_def)
  with True show ?thesis by (simp add: filterOnPickStringDictionary_def)
next
  case False
  let ?f1 = "(if \<not> init_use_dict_filter_slots f
                   then f\<lparr>use_dict_filter_slots :=
                            use_dict_filter_slots f
                            @ collect_dict_filter_slots ctx reader (materialized_columns ctx),
                          init_use_dict_filter_slots := True\<rparr>
                   else f)"
  let ?f2 = "?f1\<lparr>dict_filter_eval_cache := []\<rparr>"
  have slots: "use_dict_filter_slots ?f2 = dict_filter_slots ctx reader f"
    by (simp add: dict_filter_slots_def)
  have run: "filterOnPickStringDictionary ctx reader f sdicts
      = dict_filter_loop ctx reader sdicts (dict_filter_slots ctx reader f) ?f2"
    using False slots by (simp add: filterOnPickStringDictionary_def Let_def)
  show ?thesis unfolding run using assms by (rule dict_filter_loop_result)
qed

text \<open>
  With two qualifying slots the stripe is skipped because of \<open>s\<close> alone: the conjunct of
  \<open>t\<close> keeps the dictionary value \<open>y\<close>.
\<close>

theorem other_slot_counterexample:
  "map_option fst (filterOnPickStringDictionary string_ctx example_reader
      (OrcRowReaderFilter_new no_ranges example_reader) string_dicts) = Some True
   \<and> slot_qualifies example_reader string_dicts (slot_t, 3)
   \<and> \<not> slot_rejects_all string_ctx string_dicts (slot_t, 3)"
  by code_simp


theorem filterOnPickStringDictionary_skips_iff_witness:
  "map_option fst (filterOnPickStringDictionary string_ctx example_reader
      (OrcRowReaderFilter_new no_ranges example_reader) string_dicts) = Some True
   \<and> map_option fst (filterOnPickStringDictionary char_ctx example_reader
      (OrcRowReaderFilter_new no_ranges example_reader) char_dicts) = Some False"
proof -
  let ?f = "OrcRowReaderFilter_new no_ranges example_reader"
  have s1: "dict_filter_slots string_ctx example_reader ?f = [(slot_s, 2), (slot_t, 3)]"
    by (simp add: dict_filter_slots_def OrcRowReaderFilter_new_def string_ctx_def example_reader_def)
  have s2: "dict_filter_slots char_ctx example_reader ?f = [(slot_s_char, 2)]"
    by (simp add: dict_filter_slots_def OrcRowReaderFilter_new_def char_ctx_def example_reader_def)
  have h1: "\<forall>p\<in>set (dict_filter_slots string_ctx example_reader ?f).
      slot_qualifies example_reader string_dicts p \<longrightarrow>
      (\<exists>dict. map_of string_dicts (snd p) = Some dict \<and> dictionary_ok dict)
      \<and> map_of (conjunct_ctxs_by_slot string_ctx) (slot_id (fst p)) \<noteq> None"
    unfolding s1
    by (simp add: string_dicts_def dictionary_ok_def string_ctx_def slot_s_def slot_t_def)
  have h2: "\<forall>p\<in>set (dict_filter_slots char_ctx example_reader ?f).
      slot_qualifies example_reader char_dicts p \<longrightarrow>
      (\<exists>dict. map_of char_dicts (snd p) = Some dict \<and> dictionary_ok dict)
      \<and> map_of (conjunct_ctxs_by_slot char_ctx) (slot_id (fst p)) \<noteq> None"
    unfolding s2
    by (simp add: char_dicts_def dictionary_ok_def char_ctx_def slot_s_char_def)
  have v1: "list_ex (\<lambda>p. slot_qualifies example_reader string_dicts p
                \<and> slot_rejects_all string_ctx string_dicts p) [(slot_s, 2), (slot_t, 3)]"
    by code_simp
  have v2: "\<not> list_ex (\<lambda>p. slot_qualifies example_reader char_dicts p
                \<and> slot_rejects_all char_ctx char_dicts p) [(slot_s_char, 2)]"
    by code_simp
  from filterOnPickStringDictionary_skips_iff [OF h1] filterOnPickStringDictionary_skips_iff [OF h2]
    v1 v2 show ?thesis unfolding s1 s2 by auto
qed

section \<open>Properties of the scan loop\<close>

lemma get_column_index_update [simp]:
  "get_column_index (c\<lparr>columns := (columns c)[a := x]\<rparr>) sid = get_column_index c sid"
  by (simp add: get_column_index_def split: option.splits)

lemma get_column_index_less: "get_column_index c sid = Some i \<Longrightarrow> i < length (columns c)"
  by (auto simp: get_column_index_def split: option.splits if_splits)

lemma swap_columns_shape:
  "swap_columns es chunk c = Some (out, c') \<Longrightarrow>
   slot_id_to_index out = slot_id_to_index chunk \<and> length (columns out) = length (columns chunk)
   \<and> slot_id_to_index c' = slot_id_to_index c \<and> length (columns c') = length (columns c)"
proof (induction es arbitrary: chunk c)
  case Nil
  then show ?case by simp
next
  case (Cons e es)
  obtain sid i where e: "e = (sid, i)" by (cases e)
  from Cons.prems obtain a b where a: "get_column_index chunk sid = Some a"
    and b: "get_column_index c sid = Some b"
    and rest: "swap_columns es (chunk\<lparr>columns := (columns chunk)[a := columns c ! b]\<rparr>)
                 (c\<lparr>columns := (columns c)[b := columns chunk ! a]\<rparr>) = Some (out, c')"
    unfolding e by (auto split: option.splits)
  from Cons.IH [OF rest] show ?case by simp
qed

lemma swap_columns_content:
  assumes "swap_columns es chunk c = Some (out, c')"
    and "distinct (map fst es)"
    and "inj_on (get_column_index chunk) (fst ` set es)"
    and "inj_on (get_column_index c) (fst ` set es)"
  shows "(\<forall>sid\<in>fst ` set es. \<exists>a b. get_column_index chunk sid = Some a \<and> get_column_index c sid = Some b
            \<and> columns out ! a = columns c ! b \<and> columns c' ! b = columns chunk ! a)
       \<and> (\<forall>i. (\<forall>sid\<in>fst ` set es. get_column_index chunk sid \<noteq> Some i) \<longrightarrow> columns out ! i = columns chunk ! i)
       \<and> (\<forall>j. (\<forall>sid\<in>fst ` set es. get_column_index c sid \<noteq> Some j) \<longrightarrow> columns c' ! j = columns c ! j)"
  using assms
proof (induction es arbitrary: chunk c)
  case Nil
  then show ?case by simp
next
  case (Cons e es)
  obtain sid i where e: "e = (sid, i)" by (cases e)
  from Cons.prems(1) obtain a b where a: "get_column_index chunk sid = Some a"
    and b: "get_column_index c sid = Some b"
    and rest: "swap_columns es (chunk\<lparr>columns := (columns chunk)[a := columns c ! b]\<rparr>)
                 (c\<lparr>columns := (columns c)[b := columns chunk ! a]\<rparr>) = Some (out, c')"
    unfolding e by (auto split: option.splits)
  let ?chunk1 = "chunk\<lparr>columns := (columns chunk)[a := columns c ! b]\<rparr>"
  let ?c1 = "c\<lparr>columns := (columns c)[b := columns chunk ! a]\<rparr>"
  have la: "a < length (columns chunk)" using a by (rule get_column_index_less)
  have lb: "b < length (columns c)" using b by (rule get_column_index_less)
  from Cons.prems(2) have d: "distinct (map fst es)" and nin: "sid \<notin> fst ` set es"
    unfolding e by simp_all
  have i1: "inj_on (get_column_index ?chunk1) (fst ` set es)"
    using Cons.prems(3) unfolding e by (auto simp: inj_on_def)
  have i2: "inj_on (get_column_index ?c1) (fst ` set es)"
    using Cons.prems(4) unfolding e by (auto simp: inj_on_def)
  note IH = Cons.IH [OF rest d i1 i2]
  have other_a: "\<forall>sid'\<in>fst ` set es. get_column_index chunk sid' \<noteq> Some a"
  proof
    fix sid' assume s': "sid' \<in> fst ` set es"
    show "get_column_index chunk sid' \<noteq> Some a"
    proof
      assume "get_column_index chunk sid' = Some a"
      with a have "get_column_index chunk sid' = get_column_index chunk sid" by simp
      with Cons.prems(3) s' have "sid' = sid" unfolding e by (auto simp: inj_on_def)
      with s' nin show False by simp
    qed
  qed
  have other_b: "\<forall>sid'\<in>fst ` set es. get_column_index c sid' \<noteq> Some b"
  proof
    fix sid' assume s': "sid' \<in> fst ` set es"
    show "get_column_index c sid' \<noteq> Some b"
    proof
      assume "get_column_index c sid' = Some b"
      with b have "get_column_index c sid' = get_column_index c sid" by simp
      with Cons.prems(4) s' have "sid' = sid" unfolding e by (auto simp: inj_on_def)
      with s' nin show False by simp
    qed
  qed
  have out_a: "columns out ! a = columns c ! b"
  proof -
    from IH other_a have "columns out ! a = columns ?chunk1 ! a" by simp
    then show ?thesis using la by simp
  qed
  have c'_b: "columns c' ! b = columns chunk ! a"
  proof -
    from IH other_b have "columns c' ! b = columns ?c1 ! b" by simp
    then show ?thesis using lb by simp
  qed
  have part1: "\<forall>sid'\<in>fst ` set (e # es). \<exists>a' b'. get_column_index chunk sid' = Some a'
      \<and> get_column_index c sid' = Some b'
      \<and> columns out ! a' = columns c ! b' \<and> columns c' ! b' = columns chunk ! a'"
  proof
    fix sid' assume "sid' \<in> fst ` set (e # es)"
    then consider "sid' = sid" | "sid' \<in> fst ` set es" unfolding e by auto
    then show "\<exists>a' b'. get_column_index chunk sid' = Some a' \<and> get_column_index c sid' = Some b'
      \<and> columns out ! a' = columns c ! b' \<and> columns c' ! b' = columns chunk ! a'"
    proof cases
      case 1
      with a b out_a c'_b show ?thesis by simp
    next
      case 2
      with IH obtain a' b' where a': "get_column_index chunk sid' = Some a'"
        and b': "get_column_index c sid' = Some b'"
        and o: "columns out ! a' = columns ?c1 ! b'"
        and c: "columns c' ! b' = columns ?chunk1 ! a'"
        by fastforce
      from other_a 2 a' have "a' \<noteq> a" by auto
      moreover from other_b 2 b' have "b' \<noteq> b" by auto
      ultimately show ?thesis using a' b' o c by simp
    qed
  qed
  have part2: "\<forall>i. (\<forall>sid\<in>fst ` set (e # es). get_column_index chunk sid \<noteq> Some i)
      \<longrightarrow> columns out ! i = columns chunk ! i"
  proof (intro allI impI)
    fix i assume h: "\<forall>sid\<in>fst ` set (e # es). get_column_index chunk sid \<noteq> Some i"
    then have "i \<noteq> a" using a unfolding e by auto
    moreover from h IH have "columns out ! i = columns ?chunk1 ! i" unfolding e by simp
    ultimately show "columns out ! i = columns chunk ! i" by simp
  qed
  have part3: "\<forall>j. (\<forall>sid\<in>fst ` set (e # es). get_column_index c sid \<noteq> Some j)
      \<longrightarrow> columns c' ! j = columns c ! j"
  proof (intro allI impI)
    fix j assume h: "\<forall>sid\<in>fst ` set (e # es). get_column_index c sid \<noteq> Some j"
    then have "j \<noteq> b" using b unfolding e by auto
    moreover from h IH have "columns c' ! j = columns ?c1 ! j" unfolding e by simp
    ultimately show "columns c' ! j = columns c ! j" by simp
  qed
  from part1 part2 part3 show ?case by blast
qed


lemma retry_loop_finish:
  assumes "retry_loop ops cops ctx chunk s = Some res"
  shows "\<exists>s0. read_round ops cops ctx chunk s0 = Finish res"
proof (rule retry_loop.raw_induct
    [where P = "\<lambda>ops cops ctx chunk s res. \<exists>s0. read_round ops cops ctx chunk s0 = Finish res",
     OF _ assms])
  fix f :: "'a OrcChunkReader_ops \<Rightarrow> HdfsScannerContext_ops \<Rightarrow> HdfsScannerContext \<Rightarrow> Chunk \<Rightarrow>
      'a HdfsOrcScanner \<Rightarrow> (get_next_result \<times> Chunk \<times> 'a HdfsOrcScanner) option"
  fix ops cops ctx chunk s res
  assume IH: "\<And>ops cops ctx chunk s res. f ops cops ctx chunk s = Some res \<Longrightarrow>
      \<exists>s0. read_round ops cops ctx chunk s0 = Finish res"
  assume eq: "(case read_round ops cops ctx chunk s of
      Retry s' \<Rightarrow> f ops cops ctx chunk s' | Finish res \<Rightarrow> Some res) = Some res"
  show "\<exists>s0. read_round ops cops ctx chunk s0 = Finish res"
  proof (cases "read_round ops cops ctx chunk s")
    case (Retry s')
    with eq have "f ops cops ctx chunk s' = Some res" by simp
    then show ?thesis by (rule IH)
  next
    case (Finish r)
    with eq have "r = res" by simp
    with Finish show ?thesis by blast
  qed
qed

lemma retry_loop_Finish: "read_round ops cops ctx chunk s = Finish res \<Longrightarrow>
    retry_loop ops cops ctx chunk s = Some res"
  by (subst retry_loop.simps) simp


lemma return_output_OK:
  "return_output chunk s = (Returned OK, out, s') \<Longrightarrow>
   convert_to_output chunk (ck s) = Some (out, ck s')"
  by (auto simp: return_output_def split: option.splits)

lemma load_lazy_columns_OK:
  assumes "load_lazy_columns ops chunk position n used s = (Returned OK, out, s')"
  shows "\<exists>s2. return_output chunk s2 = (Returned OK, out, s')
    \<and> (\<exists>ret_ck. merge_chunk (ck s) ret_ck = Some (ck s2))"
proof -
  let ?r3 = "lazy_filter_on_cvb ops (chunk_filter s)
      (if used then lazy_filter_on_cvb ops (dict_filter s)
         (lazy_read_next ops n (lazy_seek_to ops (row_in_stripe position) (orc_reader s)))
       else lazy_read_next ops n (lazy_seek_to ops (row_in_stripe position) (orc_reader s)))"
  obtain st ret_ck r4 where g: "get_lazy_chunk ops ?r3 = ((st, ret_ck), r4)"
    by (metis prod.exhaust)
  have ok: "st = OK"
  proof (rule ccontr)
    assume "st \<noteq> OK"
    with assms g show False by (simp add: load_lazy_columns_def Let_def)
  qed
  show ?thesis
  proof (cases "merge_chunk (ck s) ret_ck")
    case None
    with assms g ok show ?thesis by (simp add: load_lazy_columns_def Let_def)
  next
    case (Some merged)
    with assms g ok have "return_output chunk (s\<lparr>orc_reader := r4, ck := merged\<rparr>) = (Returned OK, out, s')"
      by (simp add: load_lazy_columns_def Let_def)
    with Some show ?thesis by fastforce
  qed
qed

lemma eval_slot_conjuncts_error:
  "eval_slot_conjuncts cops cache es c n flt = (Inl st, flt') \<Longrightarrow> st \<noteq> OK"
proof (induction es arbitrary: n flt)
  case Nil
  then show ?case by simp
next
  case (Cons e es)
  obtain sid ctxs where e: "e = (sid, ctxs)" by (cases e)
  show ?case
  proof (cases "map_of cache sid \<noteq> None")
    case True
    with Cons.prems e have "eval_slot_conjuncts cops cache es c n flt = (Inl st, flt')" by simp
    then show ?thesis by (rule Cons.IH)
  next
    case False
    obtain st1 n1 flt1 where ev: "eval_conjuncts_into_filter cops ctxs c flt = ((st1, n1), flt1)"
      by (metis prod.exhaust)
    show ?thesis
    proof (cases "st1 \<noteq> OK")
      case True
      with Cons.prems e False ev show ?thesis by auto
    next
      case ok: False
      show ?thesis
      proof (cases "n1 = 0")
        case True
        with Cons.prems e False ev ok show ?thesis by simp
      next
        case nz: False
        with Cons.prems e False ev ok
        have "eval_slot_conjuncts cops cache es c n1 flt1 = (Inl st, flt')" by simp
        then show ?thesis by (rule Cons.IH)
      qed
    qed
  qed
qed

lemma filter_chunk_rows_error:
  "filter_chunk_rows ops cops ctx s c0 = (Inl st, s1) \<Longrightarrow> st \<noteq> OK"
  by (auto simp: filter_chunk_rows_def Let_def split: prod.splits sum.splits
      dest: eval_slot_conjuncts_error)

lemma read_and_filter_Failed:
  "read_and_filter ops cops ctx s = Failed st s1 \<Longrightarrow> st \<noteq> OK"
  by (auto simp: read_and_filter_def Let_def split: prod.splits if_splits sum.splits
      dest: filter_chunk_rows_error)

lemma read_round_OK:
  assumes "read_round ops cops ctx chunk s = Finish (Returned OK, out, s')"
  shows "\<exists>s2. return_output chunk s2 = (Returned OK, out, s')"
proof (cases "read_and_filter ops cops ctx s")
  case (Failed st s1)
  have "st \<noteq> OK" using Failed by (rule read_and_filter_Failed)
  with assms Failed show ?thesis by (simp add: read_round_def)
next
  case (Filtered position n used rows s1)
  show ?thesis
  proof (cases "has_lazy_load_context ops (orc_reader s1)")
    case False
    with assms Filtered show ?thesis by (auto simp: read_round_def)
  next
    case True
    with assms Filtered have "load_lazy_columns ops chunk position n used s1 = (Returned OK, out, s')"
      by (auto simp: read_round_def split: if_splits)
    from load_lazy_columns_OK [OF this] show ?thesis by blast
  qed
qed


lemma get_column_index_same_shape:
  "slot_id_to_index out = slot_id_to_index chunk \<Longrightarrow> length (columns out) = length (columns chunk)
   \<Longrightarrow> get_column_index out sid = get_column_index chunk sid"
  by (simp add: get_column_index_def split: option.splits)

lemma do_get_next_OK:
  assumes "do_get_next ops cops ctx chunk s = Some (Returned OK, out, s')"
  shows "\<exists>c. convert_to_output chunk c = Some (out, ck s')"
proof -
  have ns: "\<not> should_skip_file s"
  proof
    assume "should_skip_file s"
    with assms show False by (simp add: do_get_next_def)
  qed
  with assms have "retry_loop ops cops ctx chunk (s\<lparr>ck := Chunk_new\<rparr>) = Some (Returned OK, out, s')"
    by (simp add: do_get_next_def)
  from retry_loop_finish [OF this] obtain s0 where
    "read_round ops cops ctx chunk s0 = Finish (Returned OK, out, s')" by blast
  from read_round_OK [OF this] obtain s2 where "return_output chunk s2 = (Returned OK, out, s')"
    by blast
  from return_output_OK [OF this] show ?thesis by blast
qed

text \<open>
  The loop returns as soon as the reader reports a status other than OK, the end of the
  file included: the call gives that status back and leaves the caller's chunk alone.
\<close>

lemma do_get_next_reader_status:
  assumes "\<not> should_skip_file s"
    and "read_next ops (orc_reader s) = ((st, position), r)" and "st \<noteq> OK"
  shows "do_get_next ops cops ctx chunk s =
    Some (Returned st, chunk, s\<lparr>ck := Chunk_new, orc_reader := r\<rparr>)"
proof -
  have "read_and_filter ops cops ctx (s\<lparr>ck := Chunk_new\<rparr>)
      = Failed st (s\<lparr>ck := Chunk_new, orc_reader := r\<rparr>)"
    using assms(2,3) by (simp add: read_and_filter_def)
  then have "read_round ops cops ctx chunk (s\<lparr>ck := Chunk_new\<rparr>)
      = Finish (Returned st, chunk, s\<lparr>ck := Chunk_new, orc_reader := r\<rparr>)"
    by (simp add: read_round_def)
  from retry_loop_Finish [OF this] assms(1) show ?thesis by (simp add: do_get_next_def)
qed

text \<open>
  C4. A chunk that \<open>get_next\<close> returns with status OK is the caller's chunk after
  \<open>convert_to_output\<close>: its map from slot id to column position and its number of
  columns are the caller's, whatever chunk \<open>c\<close> the round decoded and merged; and when the
  caller's chunk and \<open>c\<close> each keep different slots in different columns, every slot's
  column in the result is the column \<open>c\<close> held for that slot id.
\<close>

theorem output_keeps_caller_slot_order:
  assumes "do_get_next ops cops ctx chunk s = Some (Returned OK, out, s')"
  shows "slot_id_to_index out = slot_id_to_index chunk
    \<and> length (columns out) = length (columns chunk)
    \<and> (\<exists>c. convert_to_output chunk c = Some (out, ck s')
         \<and> (distinct (map fst (slot_id_to_index chunk))
              \<and> inj_on (get_column_index chunk) (fst ` set (slot_id_to_index chunk))
              \<and> inj_on (get_column_index c) (fst ` set (slot_id_to_index chunk))
            \<longrightarrow> (\<forall>sid\<in>fst ` set (slot_id_to_index chunk).
                  get_column_by_slot_id out sid \<noteq> None
                  \<and> get_column_by_slot_id out sid = get_column_by_slot_id c sid)))"
proof -
  from do_get_next_OK [OF assms] obtain c where
    conv: "convert_to_output chunk c = Some (out, ck s')" by blast
  then have sw: "swap_columns (slot_id_to_index chunk) chunk c = Some (out, ck s')"
    by (simp add: convert_to_output_def)
  from swap_columns_shape [OF sw] have shape: "slot_id_to_index out = slot_id_to_index chunk"
    "length (columns out) = length (columns chunk)" by simp_all
  have content: "\<forall>sid\<in>fst ` set (slot_id_to_index chunk).
      get_column_by_slot_id out sid \<noteq> None
      \<and> get_column_by_slot_id out sid = get_column_by_slot_id c sid"
    if wf: "distinct (map fst (slot_id_to_index chunk))
        \<and> inj_on (get_column_index chunk) (fst ` set (slot_id_to_index chunk))
        \<and> inj_on (get_column_index c) (fst ` set (slot_id_to_index chunk))"
  proof
    fix sid assume sid: "sid \<in> fst ` set (slot_id_to_index chunk)"
    from wf have d: "distinct (map fst (slot_id_to_index chunk))"
      and i1: "inj_on (get_column_index chunk) (fst ` set (slot_id_to_index chunk))"
      and i2: "inj_on (get_column_index c) (fst ` set (slot_id_to_index chunk))"
      by simp_all
    from swap_columns_content [OF sw d i1 i2] sid obtain a b where
      a: "get_column_index chunk sid = Some a" and b: "get_column_index c sid = Some b"
      and eq: "columns out ! a = columns c ! b"
      by blast
    have "get_column_index out sid = Some a"
      using get_column_index_same_shape [OF shape] a by simp
    then show "get_column_by_slot_id out sid \<noteq> None
        \<and> get_column_by_slot_id out sid = get_column_by_slot_id c sid"
      using b eq by (simp add: get_column_by_slot_id_def)
  qed
  from shape conv content show ?thesis by blast
qed

lemma example_run:
  "do_get_next example_ops example_cops scan_ctx caller_chunk example_scanner =
   Some (Returned OK,
     \<lparr>columns = [[DatumBinary [120]], [DatumInt 150]], slot_id_to_index = [(3, 0), (1, 1)]\<rparr>,
     \<lparr>should_skip_file = False,
      orc_reader = (Some (\<lparr>columns = [[DatumInt 150, DatumInt 7]], slot_id_to_index = [(1, 0)]\<rparr>,
                          \<lparr>columns = [[DatumBinary [120]]], slot_id_to_index = [(3, 0)]\<rparr>), []),
      raw_rows_read = 4, chunk_filter = [1, 0], dict_filter = [],
      ck = \<lparr>columns = [[], []], slot_id_to_index = [(3, 1), (1, 0)]\<rparr>\<rparr>)"
  by code_simp

theorem output_keeps_caller_slot_order_witness:
  "slot_id_to_index (fst (snd (the (do_get_next example_ops example_cops scan_ctx caller_chunk
      example_scanner)))) = slot_id_to_index caller_chunk
   \<and> columns (fst (snd (the (do_get_next example_ops example_cops scan_ctx caller_chunk
      example_scanner)))) = [[DatumBinary [120]], [DatumInt 150]]"
  using output_keeps_caller_slot_order [OF example_run] example_run
  by (simp add: caller_chunk_def)











end
